theory Spec2Isabelle
  imports Complex_Main
begin

section \<open>Parameters of the simulation\<close>

text \<open>
  The module constants of \<^verbatim>\<open>main.py\<close>. Python floats are modelled as exact
  rationals; virtual time is a rational number of seconds.
\<close>

definition EXPECTED_EMPLOYEES :: nat where
  "EXPECTED_EMPLOYEES = 1000"

definition PEAK_ARRIVAL_RATE :: rat where
  "PEAK_ARRIVAL_RATE = 1 / 2"

definition LOW_ARRIVAL_RATE :: rat where
  "LOW_ARRIVAL_RATE = 1 / 20"

definition SERVICE_RATE :: rat where
  "SERVICE_RATE = 1 / 12"

definition SIMULATION_DURATION :: rat where
  "SIMULATION_DURATION = 3600"

section \<open>The random module\<close>

text \<open>
  One call of \<^verbatim>\<open>random.random()\<close> yields a number \<open>u\<close> in \<open>[0, 1)\<close>. The
  logarithm is not a rational function, so a draw carries \<open>u\<close> together with the
  value the library computes for \<open>- ln (1 - u)\<close>: \<^verbatim>\<open>expovariate(lambd)\<close> is
  \<open>- ln (1 - u) / lambd\<close> and \<^verbatim>\<open>uniform(a, b)\<close> is \<open>a + (b - a) * u\<close>. Each call
  uses one of the two fields of its draw. The generator is global state of the
  program: an infinite stream of draws, consumed from the front.
\<close>

record draw =
  u01 :: rat
  neg_log :: rat

definition expovariate :: "rat \<Rightarrow> draw \<Rightarrow> rat" where
  "expovariate lambd d = neg_log d / lambd"

definition uniform :: "rat \<Rightarrow> rat \<Rightarrow> draw \<Rightarrow> rat" where
  "uniform a b d = a + (b - a) * u01 d"

section \<open>The event queue of the environment\<close>

text \<open>
  \<^verbatim>\<open>main.py\<close> runs on SimPy, which is not part of the repository. Its environment,
  processes and resource are modelled after the library: \<^verbatim>\<open>Environment.schedule\<close>,
  \<^verbatim>\<open>step\<close> and \<^verbatim>\<open>run\<close>, \<^verbatim>\<open>Process._resume\<close>, \<^verbatim>\<open>Timeout\<close>, and
  \<^verbatim>\<open>Resource\<close> with the \<^verbatim>\<open>_trigger_put\<close> and \<^verbatim>\<open>_trigger_get\<close> of its base
  class. A process is a generator; the model has one function for each stretch of
  \<^verbatim>\<open>setup\<close> and \<^verbatim>\<open>employee\<close> between two \<^verbatim>\<open>yield\<close>s, called by the event that
  resumes the process there.

  Every event the program ever schedules is one of these: the stop event of
  \<^verbatim>\<open>env.run(until=...)\<close>, the initialisation of the \<^verbatim>\<open>setup\<close> process, the
  inter-arrival timeout \<^verbatim>\<open>setup\<close> waits for, and for employee number \<open>k\<close> the
  initialisation of its process, its resource request (scheduled when the request
  is granted), its service timeout and the release of its request; finally the
  termination event of a process, with the flag that tells whether the generator
  returned (\<open>True\<close>) or raised (\<open>False\<close>).
\<close>

datatype event =
    Until
  | InitSetup
  | SetupTimeout
  | InitEmp nat
  | ReqGranted nat
  | ServiceDone nat
  | Release nat
  | ProcessEnd bool

text \<open>An entry of the heap: time, priority, insertion number, event.\<close>

type_synonym entry = "rat \<times> nat \<times> nat \<times> event"

definition URGENT :: nat where
  "URGENT = 0"

definition NORMAL :: nat where
  "NORMAL = 1"

fun time_of :: "entry \<Rightarrow> rat" where
  "time_of (t, p, e, ev) = t"

fun prio_of :: "entry \<Rightarrow> nat" where
  "prio_of (t, p, e, ev) = p"

fun eid_of :: "entry \<Rightarrow> nat" where
  "eid_of (t, p, e, ev) = e"

fun event_of :: "entry \<Rightarrow> event" where
  "event_of (t, p, e, ev) = ev"

text \<open>
  Python compares the heap's tuples lexicographically; the insertion number is
  unique, so the event itself is never compared.
\<close>

definition before :: "entry \<Rightarrow> entry \<Rightarrow> bool" where
  "before x y \<longleftrightarrow>
     time_of x < time_of y \<or>
     time_of x = time_of y \<and>
       (prio_of x < prio_of y \<or> prio_of x = prio_of y \<and> eid_of x < eid_of y)"

fun least :: "entry \<Rightarrow> entry list \<Rightarrow> entry" where
  "least m [] = m"
| "least m (x # xs) = least (if before x m then x else m) xs"

definition heappop :: "entry list \<Rightarrow> (entry \<times> entry list) option" where
  "heappop q =
     (case q of
        [] \<Rightarrow> None
      | x # xs \<Rightarrow> (let m = least x xs in Some (m, remove1 m q)))"

section \<open>The state of one scenario run\<close>

text \<open>
  The environment (\<open>now\<close>, \<open>queue\<close>, \<open>eid\<close>), the random generator, the resource
  (\<open>users\<close>, \<open>put_queue\<close>: requests are identified with the number of the employee
  that issued them), the locals of the generators (\<open>employee_count\<close> of
  \<^verbatim>\<open>setup\<close>, \<open>arrival_time\<close> of each employee) and the three collections of the
  scenario loop. The last two fields are history variables, which nothing reads:
  \<open>req_log\<close> lists the requests in the order \<^verbatim>\<open>machine.request()\<close> was called,
  each with the clock value of the call and the number of requests that were
  waiting when it joined the queue; \<open>grant_log\<close> lists them in the order the
  resource granted them, each with the clock value of the grant.
\<close>

record state =
  now :: rat
  queue :: "entry list"
  eid :: nat
  rng :: "nat \<Rightarrow> draw"
  users :: "nat list"
  put_queue :: "nat list"
  employee_count :: nat
  arrival_time :: "nat \<Rightarrow> rat"
  wait_times :: "rat list"
  queue_lengths :: "nat list"
  served_count :: nat
  req_log :: "(nat \<times> rat \<times> nat) list"
  grant_log :: "(nat \<times> rat) list"

datatype error = ValueError | RuntimeError | ZeroDivisionError

datatype outcome = Continue state | Stopped state | Failed error

definition random :: "state \<Rightarrow> draw \<times> state" where
  "random s = (rng s 0, s\<lparr>rng := (\<lambda>i. rng s (Suc i))\<rparr>)"

text \<open>\<^verbatim>\<open>Environment.schedule\<close>: push at \<open>now + delay\<close> with the next insertion number.\<close>

definition schedule :: "event \<Rightarrow> nat \<Rightarrow> rat \<Rightarrow> state \<Rightarrow> state" where
  "schedule ev priority delay s =
     s\<lparr>queue := queue s @ [(now s + delay, priority, eid s, ev)], eid := eid s + 1\<rparr>"

section \<open>The resource\<close>

text \<open>
  \<^verbatim>\<open>Resource._trigger_put\<close> with \<^verbatim>\<open>Resource._do_put\<close>: only the request at the
  head of the queue is looked at; when a slot is free it joins \<open>users\<close>, its event
  is scheduled and it leaves the queue.
\<close>

definition trigger_put :: "nat \<Rightarrow> state \<Rightarrow> state" where
  "trigger_put capacity s =
     (case put_queue s of
        [] \<Rightarrow> s
      | h # rest \<Rightarrow>
          if length (users s) < capacity
          then schedule (ReqGranted h) NORMAL 0
                 (s\<lparr>users := users s @ [h], put_queue := rest,
                    grant_log := grant_log s @ [(h, now s)]\<rparr>)
          else s)"

text \<open>\<^verbatim>\<open>machine.request()\<close>: join the tail of the queue, then trigger.\<close>

definition request :: "nat \<Rightarrow> nat \<Rightarrow> state \<Rightarrow> state" where
  "request capacity k s =
     trigger_put capacity
       (s\<lparr>put_queue := put_queue s @ [k],
          req_log := req_log s @ [(k, now s, length (put_queue s))]\<rparr>)"

text \<open>
  Leaving the \<^verbatim>\<open>with\<close> block: \<^verbatim>\<open>Resource.release\<close> removes the request from
  \<open>users\<close> at once and schedules the release event, whose callback triggers the
  queue when it is dispatched. The release is in the resource's get queue only
  while \<^verbatim>\<open>release\<close> runs, so the state has no field for that queue.
\<close>

definition release :: "nat \<Rightarrow> state \<Rightarrow> state" where
  "release k s = schedule (Release k) NORMAL 0 (s\<lparr>users := remove1 k (users s)\<rparr>)"

section \<open>The processes\<close>

definition arrival_rate :: "rat \<Rightarrow> rat" where
  "arrival_rate current_time =
     (if 0 \<le> current_time \<and> current_time < 1200 then LOW_ARRIVAL_RATE
      else if 1200 \<le> current_time \<and> current_time < 2400 then PEAK_ARRIVAL_RATE
      else LOW_ARRIVAL_RATE)"

text \<open>
  The loop of \<^verbatim>\<open>setup\<close> from its head to the next \<^verbatim>\<open>yield\<close>. A negative delay
  makes \<^verbatim>\<open>env.timeout\<close> raise \<^verbatim>\<open>ValueError\<close> inside the generator: the process
  fails and its termination event is scheduled.
\<close>

definition setup_loop :: "state \<Rightarrow> state" where
  "setup_loop s =
     (if employee_count s < EXPECTED_EMPLOYEES
      then (let (d, s1) = random s;
                delay = expovariate (arrival_rate (now s)) d
            in if delay < 0 then schedule (ProcessEnd False) NORMAL 0 s1
               else schedule SetupTimeout NORMAL delay s1)
      else schedule (ProcessEnd True) NORMAL 0 s)"

text \<open>
  The start of \<^verbatim>\<open>setup\<close>: a new resource (\<^verbatim>\<open>simpy.Resource\<close> raises
  \<^verbatim>\<open>ValueError\<close> unless the capacity is positive) and the counter at 0.
\<close>

definition setup_start :: "nat \<Rightarrow> state \<Rightarrow> state" where
  "setup_start num_machines s =
     (if num_machines = 0 then schedule (ProcessEnd False) NORMAL 0 s
      else setup_loop (s\<lparr>users := [], put_queue := [], employee_count := 0\<rparr>))"

text \<open>\<^verbatim>\<open>setup\<close> after its timeout: count, start the employee's process, loop.\<close>

definition setup_resume :: "state \<Rightarrow> state" where
  "setup_resume s =
     (let s1 = s\<lparr>employee_count := employee_count s + 1\<rparr>;
          s2 = schedule (InitEmp (employee_count s1)) URGENT 0 s1
      in setup_loop s2)"

text \<open>\<^verbatim>\<open>employee\<close> up to \<^verbatim>\<open>yield req\<close>.\<close>

definition employee_start :: "nat \<Rightarrow> nat \<Rightarrow> state \<Rightarrow> state" where
  "employee_start capacity k s =
     request capacity k (s\<lparr>arrival_time := (arrival_time s)(k := now s)\<rparr>)"

text \<open>
  \<^verbatim>\<open>employee\<close> from the grant of its request to the service timeout. When the
  timeout raises, the \<^verbatim>\<open>with\<close> block still releases the request and the process
  fails.
\<close>

definition employee_granted :: "nat \<Rightarrow> state \<Rightarrow> state" where
  "employee_granted k s =
     (let wait_time = now s - arrival_time s k;
          s1 = s\<lparr>wait_times := wait_times s @ [wait_time]\<rparr>;
          s2 = s1\<lparr>queue_lengths := queue_lengths s1 @ [length (put_queue s1)]\<rparr>;
          (d1, s3) = random s2;
          (d2, s4) = random s3;
          delay = expovariate SERVICE_RATE d1 * uniform (4 / 5) (6 / 5) d2
      in if delay < 0
         then schedule (ProcessEnd False) NORMAL 0 (release k s4)
         else schedule (ServiceDone k) NORMAL delay s4)"

text \<open>\<^verbatim>\<open>employee\<close> after its service: count, release, return.\<close>

definition employee_served :: "nat \<Rightarrow> state \<Rightarrow> state" where
  "employee_served k s =
     schedule (ProcessEnd True) NORMAL 0
       (release k (s\<lparr>served_count := served_count s + 1\<rparr>))"

section \<open>The scheduler\<close>

text \<open>
  The callbacks of each event. The stop event raises \<^verbatim>\<open>StopSimulation\<close>; the
  termination event of a failed process re-raises the exception out of
  \<^verbatim>\<open>Environment.step\<close>.
\<close>

fun callbacks :: "nat \<Rightarrow> event \<Rightarrow> state \<Rightarrow> outcome" where
  "callbacks capacity Until s = Stopped s"
| "callbacks capacity InitSetup s = Continue (setup_start capacity s)"
| "callbacks capacity SetupTimeout s = Continue (setup_resume s)"
| "callbacks capacity (InitEmp k) s = Continue (employee_start capacity k s)"
| "callbacks capacity (ReqGranted k) s = Continue (employee_granted k s)"
| "callbacks capacity (ServiceDone k) s = Continue (employee_served k s)"
| "callbacks capacity (Release k) s = Continue (trigger_put capacity s)"
| "callbacks capacity (ProcessEnd ok) s = (if ok then Continue s else Failed ValueError)"

text \<open>
  \<^verbatim>\<open>Environment.step\<close>: pop the least entry, set the clock to its time, call
  its callbacks. An empty heap ends \<^verbatim>\<open>run\<close> with \<^verbatim>\<open>RuntimeError\<close>, the stop
  event not having been triggered.
\<close>

definition step :: "nat \<Rightarrow> state \<Rightarrow> outcome" where
  "step capacity s =
     (case heappop (queue s) of
        None \<Rightarrow> Failed RuntimeError
      | Some (x, q) \<Rightarrow> callbacks capacity (event_of x) (s\<lparr>now := time_of x, queue := q\<rparr>))"

subsection \<open>The run loop terminates\<close>

text \<open>
  \<^verbatim>\<open>Environment.run\<close> calls \<open>step\<close> until the stop event is dispatched or an
  exception escapes. Every step pops one entry, and what it pushes weighs less
  than what it popped: \<^verbatim>\<open>setup\<close> can start at most \<open>EXPECTED_EMPLOYEES\<close>
  employees, and each employee goes through a fixed number of events.
\<close>

fun weight :: "nat \<Rightarrow> event \<Rightarrow> nat" where
  "weight c Until = 0"
| "weight c InitSetup = 0"
| "weight c SetupTimeout = 7 + 6 * (EXPECTED_EMPLOYEES - 1 - c)"
| "weight c (InitEmp k) = 5"
| "weight c (ReqGranted k) = 4"
| "weight c (ServiceDone k) = 3"
| "weight c (Release k) = 1"
| "weight c (ProcessEnd ok) = 1"

definition pending_weight :: "nat \<Rightarrow> entry list \<Rightarrow> nat" where
  "pending_weight c q = sum_list (map (\<lambda>x. weight c (event_of x)) q)"

definition potential :: "state \<Rightarrow> nat" where
  "potential s = pending_weight (employee_count s) (queue s) + 4 * length (put_queue s)"

definition inits :: "state \<Rightarrow> nat" where
  "inits s = length (filter (\<lambda>x. event_of x = InitSetup) (queue s))"

lemma least_mem: "least m xs \<in> set (m # xs)"
  by (induction xs arbitrary: m) auto

lemma heappop_Some:
  assumes "heappop q = Some (x, q')"
  shows "x \<in> set q \<and> q' = remove1 x q"
proof (cases q)
  case Nil
  with assms show ?thesis by (simp add: heappop_def)
next
  case (Cons y ys)
  with assms have "x = least y ys" and "q' = remove1 x q"
    by (auto simp: heappop_def Let_def)
  with least_mem [of y ys] Cons show ?thesis by simp
qed

lemma weight_mono: "c \<le> c' \<Longrightarrow> weight c' ev \<le> weight c ev"
  by (cases ev) auto

lemma pending_weight_mono: "c \<le> c' \<Longrightarrow> pending_weight c' q \<le> pending_weight c q"
  unfolding pending_weight_def by (induction q) (auto intro: add_mono weight_mono)

lemma pending_weight_simps [simp]:
  "pending_weight c [] = 0"
  "pending_weight c (x # q) = weight c (event_of x) + pending_weight c q"
  "pending_weight c (q @ r) = pending_weight c q + pending_weight c r"
  by (simp_all add: pending_weight_def)

lemma pending_weight_remove1:
  "x \<in> set q \<Longrightarrow> pending_weight c q = weight c (event_of x) + pending_weight c (remove1 x q)"
  unfolding pending_weight_def by (rule sum_list_map_remove1)

lemma inits_remove1:
  "x \<in> set q \<Longrightarrow> length (filter (\<lambda>x. event_of x = InitSetup) q) =
     (if event_of x = InitSetup then 1 else 0) +
     length (filter (\<lambda>x. event_of x = InitSetup) (remove1 x q))"
  by (induction q) auto

lemma potential_schedule [simp]:
  "potential (schedule ev p d s) = potential s + weight (employee_count s) ev"
  by (simp add: potential_def schedule_def)

lemma inits_schedule [simp]:
  "inits (schedule ev p d s) = inits s + (if ev = InitSetup then 1 else 0)"
  by (simp add: inits_def schedule_def)

lemma potential_trigger_put [simp]: "potential (trigger_put cap s) = potential s"
  by (auto simp: trigger_put_def potential_def schedule_def split: list.splits)

lemma inits_trigger_put [simp]: "inits (trigger_put cap s) = inits s"
  by (auto simp: trigger_put_def inits_def schedule_def split: list.splits)

lemma step_decreases:
  assumes "step cap s = Continue s'"
  shows "(s', s) \<in> measures [inits, potential]"
proof -
  from assms obtain x q where pop: "heappop (queue s) = Some (x, q)"
    and cb: "callbacks cap (event_of x) (s\<lparr>now := time_of x, queue := q\<rparr>) = Continue s'"
    by (auto simp: step_def split: option.splits)
  from heappop_Some [OF pop] have mem: "x \<in> set (queue s)" and q: "q = remove1 x (queue s)"
    by auto
  let ?s = "s\<lparr>now := time_of x, queue := q\<rparr>"
  have pot: "potential s = weight (employee_count s) (event_of x) + potential ?s"
    using pending_weight_remove1 [OF mem] by (simp add: potential_def q)
  have ini: "inits s = (if event_of x = InitSetup then 1 else 0) + inits ?s"
    using inits_remove1 [OF mem] by (simp add: inits_def q)
  show ?thesis
  proof (cases "event_of x")
    case Until
    with cb show ?thesis by simp
  next
    case InitSetup
    with cb have "s' = setup_start cap ?s" by simp
    then have "inits s' = inits ?s"
      by (auto simp: setup_start_def setup_loop_def random_def Let_def inits_def schedule_def)
    with ini InitSetup show ?thesis by simp
  next
    case SetupTimeout
    with cb have s': "s' = setup_resume ?s" by simp
    have "inits s' = inits ?s"
      by (auto simp: s' setup_resume_def setup_loop_def random_def Let_def inits_def schedule_def)
    moreover have "potential s' < potential s"
    proof -
      let ?c = "employee_count s"
      have le: "pending_weight (Suc ?c) q \<le> pending_weight ?c q"
        by (rule pending_weight_mono) simp
      have "potential s' \<le> pending_weight (Suc ?c) q + 4 * length (put_queue s) + 5 +
              (if Suc ?c < EXPECTED_EMPLOYEES then weight (Suc ?c) SetupTimeout else 1)"
        by (auto simp: s' setup_resume_def setup_loop_def random_def Let_def potential_def
              schedule_def)
      moreover have "5 + (if Suc ?c < EXPECTED_EMPLOYEES then weight (Suc ?c) SetupTimeout else 1)
               < weight ?c SetupTimeout"
        by auto
      ultimately show ?thesis using le pot SetupTimeout by (simp add: potential_def)
    qed
    ultimately show ?thesis using ini SetupTimeout by simp
  next
    case (InitEmp k)
    with cb have s': "s' = employee_start cap k ?s" by simp
    have "inits s' = inits ?s"
      by (simp add: s' employee_start_def request_def) (simp add: inits_def)
    moreover have "potential s' < potential s"
      by (simp add: s' employee_start_def request_def pot InitEmp) (simp add: potential_def)
    ultimately show ?thesis using ini InitEmp by simp
  next
    case (ReqGranted k)
    with cb have s': "s' = employee_granted k ?s" by simp
    have "inits s' = inits ?s"
      by (simp add: s' employee_granted_def release_def random_def Let_def) (simp add: inits_def)
    moreover have "potential s' < potential s"
      by (simp add: s' employee_granted_def release_def random_def Let_def pot ReqGranted)
         (simp add: potential_def)
    ultimately show ?thesis using ini ReqGranted by simp
  next
    case (ServiceDone k)
    with cb have s': "s' = employee_served k ?s" by simp
    have "inits s' = inits ?s"
      by (simp add: s' employee_served_def release_def) (simp add: inits_def)
    moreover have "potential s' < potential s"
      by (simp add: s' employee_served_def release_def pot ServiceDone) (simp add: potential_def)
    ultimately show ?thesis using ini ServiceDone by simp
  next
    case (Release k)
    with cb have s': "s' = trigger_put cap ?s" by simp
    show ?thesis using ini Release pot by (simp add: s')
  next
    case (ProcessEnd ok)
    with cb have s': "s' = ?s" by (simp split: if_splits)
    show ?thesis using ini ProcessEnd pot by (simp add: s')
  qed
qed

text \<open>
  \<^verbatim>\<open>env.run(until=SIMULATION_DURATION)\<close>: the state in which the stop event was
  dispatched, or the exception that escaped.
\<close>

function run :: "nat \<Rightarrow> state \<Rightarrow> error + state" where
  "run capacity s =
     (case step capacity s of
        Continue s' \<Rightarrow> run capacity s'
      | Stopped s' \<Rightarrow> Inr s'
      | Failed e \<Rightarrow> Inl e)"
  by pat_completeness auto
termination
  by (relation "inv_image (measures [inits, potential]) snd") (auto dest: step_decreases)

text \<open>The states the run goes through, one after each dispatched event.\<close>

function trace :: "nat \<Rightarrow> state \<Rightarrow> state list" where
  "trace capacity s =
     s # (case step capacity s of
            Continue s' \<Rightarrow> trace capacity s'
          | Stopped s' \<Rightarrow> [s']
          | Failed e \<Rightarrow> [])"
  by pat_completeness auto
termination
  by (relation "inv_image (measures [inits, potential]) snd") (auto dest: step_decreases)

declare run.simps [simp del] trace.simps [simp del]

section \<open>The scenario loop\<close>

text \<open>
  One iteration builds a new environment and new collections, starts \<^verbatim>\<open>setup\<close>
  (its initialisation event is scheduled at once) and runs the environment, which
  first schedules the stop event; \<^verbatim>\<open>run\<close> would refuse a horizon that is not
  after the clock, which is 0 here. Only the random generator and the
  \<^verbatim>\<open>results\<close> dictionary live across iterations.
\<close>

definition new_environment :: "(nat \<Rightarrow> draw) \<Rightarrow> state" where
  "new_environment g =
     \<lparr>now = 0, queue = [], eid = 0, rng = g, users = [], put_queue = [],
      employee_count = 0, arrival_time = (\<lambda>k. 0), wait_times = [], queue_lengths = [],
      served_count = 0, req_log = [], grant_log = []\<rparr>"

definition start_scenario :: "(nat \<Rightarrow> draw) \<Rightarrow> state" where
  "start_scenario g =
     (let s = schedule InitSetup URGENT 0 (new_environment g)
      in schedule Until URGENT (SIMULATION_DURATION - now s) s)"

record scenario_result =
  avg_wait_time :: rat
  avg_queue_length :: rat
  utilization :: rat
  throughput :: rat

definition metrics :: "nat \<Rightarrow> state \<Rightarrow> scenario_result" where
  "metrics num_machines s =
     \<lparr>avg_wait_time =
        (if wait_times s \<noteq> [] then sum_list (wait_times s) / of_nat (length (wait_times s))
         else 0),
      avg_queue_length =
        (if queue_lengths s \<noteq> []
         then of_nat (sum_list (queue_lengths s)) / of_nat (length (queue_lengths s))
         else 0),
      utilization =
        of_nat (length (wait_times s)) / (SIMULATION_DURATION * of_nat num_machines)
          * SERVICE_RATE,
      throughput = of_nat (served_count s) / SIMULATION_DURATION\<rparr>"

text \<open>
  The simulation and the metrics of one iteration. The division by
  \<open>SIMULATION_DURATION * num_machines\<close> raises for no machines; the run has
  failed before that, the resource refusing capacity 0.
\<close>

definition scenario :: "nat \<Rightarrow> (nat \<Rightarrow> draw) \<Rightarrow> error + (scenario_result \<times> (nat \<Rightarrow> draw))" where
  "scenario num_machines g =
     (case run num_machines (start_scenario g) of
        Inl e \<Rightarrow> Inl e
      | Inr s \<Rightarrow>
          if num_machines = 0 then Inl ZeroDivisionError
          else Inr (metrics num_machines s, rng s))"

text \<open>The \<^verbatim>\<open>results\<close> dictionary: five lists, one per key.\<close>

record results =
  res_num_machines :: "nat list"
  res_wait_times :: "rat list"
  res_queue_lengths :: "rat list"
  res_utilization :: "rat list"
  res_throughput :: "rat list"

definition no_results :: results where
  "no_results =
     \<lparr>res_num_machines = [], res_wait_times = [], res_queue_lengths = [],
      res_utilization = [], res_throughput = []\<rparr>"

definition store_results :: "nat \<Rightarrow> scenario_result \<Rightarrow> results \<Rightarrow> results" where
  "store_results num_machines m r =
     r\<lparr>res_num_machines := res_num_machines r @ [num_machines],
       res_wait_times := res_wait_times r @ [avg_wait_time m],
       res_queue_lengths := res_queue_lengths r @ [avg_queue_length m],
       res_utilization := res_utilization r @ [utilization m],
       res_throughput := res_throughput r @ [throughput m]\<rparr>"

definition iteration ::
  "nat \<Rightarrow> results \<times> (nat \<Rightarrow> draw) \<Rightarrow> error + (results \<times> (nat \<Rightarrow> draw))" where
  "iteration num_machines st =
     (case scenario num_machines (snd st) of
        Inl e \<Rightarrow> Inl e
      | Inr (m, g) \<Rightarrow> Inr (store_results num_machines m (fst st), g))"

fun for_loop ::
  "nat list \<Rightarrow> results \<times> (nat \<Rightarrow> draw) \<Rightarrow> error + (results \<times> (nat \<Rightarrow> draw))" where
  "for_loop [] st = Inr st"
| "for_loop (num_machines # rest) st =
     (case iteration num_machines st of
        Inl e \<Rightarrow> Inl e
      | Inr st' \<Rightarrow> for_loop rest st')"

definition main :: "(nat \<Rightarrow> draw) \<Rightarrow> error + (results \<times> (nat \<Rightarrow> draw))" where
  "main g = for_loop [1, 3, 5, 7, 10] (no_results, g)"

section \<open>Reasoning about steps and runs\<close>

lemma not_before_trans:
  "\<not> before a b \<Longrightarrow> \<not> before b c \<Longrightarrow> \<not> before a c"
  by (cases a; cases b; cases c) (auto simp: before_def)

lemma least_le_start: "\<not> before m (least m xs)"
proof (induction xs arbitrary: m)
  case Nil
  show ?case by (cases m) (simp add: before_def)
next
  case (Cons x xs)
  show ?case
  proof (cases "before x m")
    case True
    have "\<not> before m x" using True by (cases m; cases x) (auto simp: before_def)
    with Cons [of x] True show ?thesis
      using not_before_trans [of m x "least x xs"] by auto
  next
    case False
    with Cons [of m] show ?thesis by simp
  qed
qed

lemma least_minimal: "y \<in> set (m # xs) \<Longrightarrow> \<not> before y (least m xs)"
proof (induction xs arbitrary: m)
  case Nil
  then show ?case by (cases m) (simp add: before_def)
next
  case (Cons x xs)
  let ?m = "if before x m then x else m"
  have start: "\<not> before ?m (least ?m xs)" by (rule least_le_start)
  from Cons.prems consider "y = m" | "y = x" | "y \<in> set xs" by auto
  then show ?case
  proof cases
    case 1
    have "\<not> before m ?m" by (cases m; cases x) (auto simp: before_def)
    with start 1 show ?thesis using not_before_trans [of m ?m "least ?m xs"] by simp
  next
    case 2
    have "\<not> before x ?m" by (cases m; cases x) (auto simp: before_def)
    with start 2 show ?thesis using not_before_trans [of x ?m "least ?m xs"] by simp
  next
    case 3
    then have "y \<in> set (?m # xs)" by simp
    from Cons.IH [OF this] show ?thesis by simp
  qed
qed

lemma heappop_minimal:
  assumes "heappop q = Some (x, q')" and "y \<in> set q"
  shows "\<not> before y x"
proof (cases q)
  case Nil
  with assms show ?thesis by simp
next
  case (Cons z zs)
  with assms have "x = least z zs" by (auto simp: heappop_def Let_def)
  with least_minimal [of y z zs] assms(2) Cons show ?thesis by simp
qed

lemma heappop_None: "heappop q = None \<longleftrightarrow> q = []"
  by (auto simp: heappop_def Let_def split: list.splits)

text \<open>The state in which the callbacks of the popped entry run.\<close>

definition popped :: "entry \<Rightarrow> state \<Rightarrow> state" where
  "popped x s = s\<lparr>now := time_of x, queue := remove1 x (queue s)\<rparr>"

lemma step_Continue:
  assumes "step cap s = Continue s'"
  obtains x where "x \<in> set (queue s)" and "\<And>y. y \<in> set (queue s) \<Longrightarrow> \<not> before y x"
    and "callbacks cap (event_of x) (popped x s) = Continue s'"
proof -
  from assms obtain x q where pop: "heappop (queue s) = Some (x, q)"
    and cb: "callbacks cap (event_of x) (s\<lparr>now := time_of x, queue := q\<rparr>) = Continue s'"
    by (auto simp: step_def split: option.splits)
  from heappop_Some [OF pop] have "x \<in> set (queue s)" and "q = remove1 x (queue s)"
    by auto
  with cb heappop_minimal [OF pop] that show thesis by (simp add: popped_def)
qed

lemma step_Stopped:
  assumes "step cap s = Stopped f"
  obtains x where "x \<in> set (queue s)" and "\<And>y. y \<in> set (queue s) \<Longrightarrow> \<not> before y x"
    and "event_of x = Until" and "f = popped x s"
proof -
  from assms obtain x q where pop: "heappop (queue s) = Some (x, q)"
    and cb: "callbacks cap (event_of x) (s\<lparr>now := time_of x, queue := q\<rparr>) = Stopped f"
    by (auto simp: step_def split: option.splits)
  from heappop_Some [OF pop] have mem: "x \<in> set (queue s)" and q: "q = remove1 x (queue s)"
    by auto
  from cb have "event_of x = Until \<and> f = popped x s"
    by (cases "event_of x") (auto simp: popped_def q split: if_splits)
  with mem heappop_minimal [OF pop] that show thesis by blast
qed

lemma trace_induct_rule:
  assumes "P s0"
    and "\<And>s s'. P s \<Longrightarrow> step cap s = Continue s' \<Longrightarrow> P s'"
    and "\<And>s. P s \<Longrightarrow> Q s"
    and "\<And>s f. P s \<Longrightarrow> step cap s = Stopped f \<Longrightarrow> Q f"
  shows "\<forall>s \<in> set (trace cap s0). Q s"
  using assms
proof (induction cap s0 rule: trace.induct)
  case (1 capacity s)
  note step_P = "1.prems"(2) and P_Q = "1.prems"(3) and stop_Q = "1.prems"(4)
  have Qs: "Q s" using "1.prems"(1) by (rule P_Q)
  show ?case
  proof (cases "step capacity s")
    case (Continue s')
    have "P s'" using "1.prems"(1) Continue by (rule step_P)
    then have "\<forall>t \<in> set (trace capacity s'). Q t"
      using "1.IH" [OF Continue] step_P P_Q stop_Q by blast
    with Qs Continue show ?thesis
      by (subst trace.simps) simp
  next
    case (Stopped f)
    have "Q f" using "1.prems"(1) Stopped by (rule stop_Q)
    with Qs Stopped show ?thesis
      by (subst trace.simps) simp
  next
    case (Failed e)
    with Qs show ?thesis
      by (subst trace.simps) simp
  qed
qed

lemma run_final:
  assumes "run cap s0 = Inr f" and "P s0"
    and "\<And>s s'. P s \<Longrightarrow> step cap s = Continue s' \<Longrightarrow> P s'"
  shows "\<exists>s. P s \<and> step cap s = Stopped f"
  using assms
proof (induction cap s0 rule: run.induct)
  case (1 capacity s)
  note step_P = "1.prems"(3)
  show ?case
  proof (cases "step capacity s")
    case (Continue s')
    have "P s'" using "1.prems"(2) Continue by (rule step_P)
    moreover have "run capacity s' = Inr f"
      using "1.prems"(1) Continue by (subst (asm) run.simps) simp
    ultimately show ?thesis
      using "1.IH" [OF Continue] step_P by blast
  next
    case (Stopped f')
    with "1.prems"(1) have "f' = f" by (subst (asm) run.simps) simp
    with Stopped "1.prems"(2) show ?thesis by blast
  next
    case (Failed e)
    with "1.prems"(1) show ?thesis by (subst (asm) run.simps) simp
  qed
qed

section \<open>Invariants of a scenario run\<close>

subsection \<open>The clock and the pending events\<close>

text \<open>
  Timeouts and the stop event are scheduled for a later time; every other event
  is scheduled for the current time. While the stop event is pending the clock is
  before the horizon, no pending entry is in the past, and entries that are not
  timeouts are due now.
\<close>

fun delayed :: "event \<Rightarrow> bool" where
  "delayed Until = True"
| "delayed SetupTimeout = True"
| "delayed (ServiceDone k) = True"
| "delayed ev = False"

definition clock_ok :: "state \<Rightarrow> bool" where
  "clock_ok s \<longleftrightarrow>
     now s < SIMULATION_DURATION \<and>
     (SIMULATION_DURATION, URGENT, 1, Until) \<in> set (queue s) \<and>
     (\<forall>x \<in> set (queue s).
        now s \<le> time_of x \<and>
        (event_of x = Until \<longrightarrow> time_of x = SIMULATION_DURATION) \<and>
        (\<not> delayed (event_of x) \<longrightarrow> time_of x \<le> now s) \<and>
        (prio_of x = URGENT \<longrightarrow> event_of x = Until \<or> \<not> delayed (event_of x)))"

lemma clock_ok_start: "clock_ok (start_scenario g)"
  by (simp add: clock_ok_def start_scenario_def new_environment_def schedule_def
      SIMULATION_DURATION_def URGENT_def)

lemma popped_time_less:
  assumes ok: "clock_ok s" and mem: "x \<in> set (queue s)"
    and least: "\<And>y. y \<in> set (queue s) \<Longrightarrow> \<not> before y x" and ev: "event_of x \<noteq> Until"
  shows "time_of x < SIMULATION_DURATION"
proof -
  let ?u = "(SIMULATION_DURATION, URGENT, 1::nat, Until)"
  from ok have "?u \<in> set (queue s)" by (simp add: clock_ok_def)
  from least [OF this] have nb: "\<not> before ?u x" .
  from ok mem ev have imm: "prio_of x = URGENT \<longrightarrow> time_of x \<le> now s"
    and "now s < SIMULATION_DURATION"
    by (auto simp: clock_ok_def)
  with nb show ?thesis
    by (cases x) (auto simp: before_def URGENT_def)
qed

lemma clock_ok_popped:
  assumes ok: "clock_ok s" and mem: "x \<in> set (queue s)"
    and least: "\<And>y. y \<in> set (queue s) \<Longrightarrow> \<not> before y x" and ev: "event_of x \<noteq> Until"
  shows "clock_ok (popped x s)"
proof -
  have lt: "time_of x < SIMULATION_DURATION"
    using assms by (rule popped_time_less)
  have le: "time_of x \<le> time_of y" if "y \<in> set (queue s)" for y
    using least [OF that] by (cases x; cases y) (auto simp: before_def)
  have ge: "now s \<le> time_of x" using ok mem by (simp add: clock_ok_def)
  have sub: "y \<in> set (queue s)" if "y \<in> set (remove1 x (queue s))" for y
    using that set_remove1_subset [of x "queue s"] by auto
  have u: "(SIMULATION_DURATION, URGENT, 1, Until) \<in> set (remove1 x (queue s))"
  proof -
    have "(SIMULATION_DURATION, URGENT, 1, Until) \<noteq> x" using ev by auto
    moreover have "(SIMULATION_DURATION, URGENT, 1, Until) \<in> set (queue s)"
      using ok by (simp add: clock_ok_def)
    ultimately show ?thesis by (simp add: in_set_remove1)
  qed
  show ?thesis
    unfolding clock_ok_def popped_def using lt le ge u ok
    by (auto simp: clock_ok_def dest!: sub intro: order_trans)
qed

lemma clock_ok_schedule:
  assumes "clock_ok s" and "0 \<le> d" and "ev \<noteq> Until" and "\<not> delayed ev \<Longrightarrow> d = 0"
    and "p = URGENT \<Longrightarrow> \<not> delayed ev"
  shows "clock_ok (schedule ev p d s)"
  using assms by (auto simp: clock_ok_def schedule_def)

lemma clock_ok_fields [simp]:
  "clock_ok (s\<lparr>rng := g\<rparr>) = clock_ok s"
  "clock_ok (s\<lparr>users := us\<rparr>) = clock_ok s"
  "clock_ok (s\<lparr>put_queue := pq\<rparr>) = clock_ok s"
  "clock_ok (s\<lparr>employee_count := c\<rparr>) = clock_ok s"
  "clock_ok (s\<lparr>arrival_time := a\<rparr>) = clock_ok s"
  "clock_ok (s\<lparr>wait_times := ws\<rparr>) = clock_ok s"
  "clock_ok (s\<lparr>queue_lengths := qs\<rparr>) = clock_ok s"
  "clock_ok (s\<lparr>served_count := n\<rparr>) = clock_ok s"
  "clock_ok (s\<lparr>req_log := rl\<rparr>) = clock_ok s"
  "clock_ok (s\<lparr>grant_log := gl\<rparr>) = clock_ok s"
  by (simp_all add: clock_ok_def)

lemma clock_ok_trigger_put: "clock_ok s \<Longrightarrow> clock_ok (trigger_put cap s)"
  apply (simp add: trigger_put_def split: list.splits)
  apply (intro impI allI conjI clock_ok_schedule)
  apply (simp_all add: NORMAL_def URGENT_def)
  done

lemma clock_ok_release: "clock_ok s \<Longrightarrow> clock_ok (release k s)"
  apply (simp add: release_def)
  apply (intro clock_ok_schedule)
  apply (simp_all add: NORMAL_def URGENT_def)
  done

lemma clock_ok_setup_loop: "clock_ok s \<Longrightarrow> clock_ok (setup_loop s)"
  apply (simp add: setup_loop_def random_def Let_def)
  apply (intro impI allI conjI clock_ok_schedule)
  apply (simp_all add: NORMAL_def URGENT_def)
  done

lemma clock_ok_setup_start: "clock_ok s \<Longrightarrow> clock_ok (setup_start cap s)"
  apply (simp add: setup_start_def)
  apply (intro impI allI conjI clock_ok_schedule clock_ok_setup_loop)
  apply (simp_all add: NORMAL_def URGENT_def)
  done

lemma clock_ok_setup_resume: "clock_ok s \<Longrightarrow> clock_ok (setup_resume s)"
  apply (simp add: setup_resume_def Let_def)
  apply (intro impI allI conjI clock_ok_schedule clock_ok_setup_loop)
  apply (simp_all add: NORMAL_def URGENT_def)
  done

lemma clock_ok_employee_start: "clock_ok s \<Longrightarrow> clock_ok (employee_start cap k s)"
  apply (simp add: employee_start_def request_def)
  apply (intro clock_ok_trigger_put)
  apply simp
  done

lemma clock_ok_employee_granted: "clock_ok s \<Longrightarrow> clock_ok (employee_granted k s)"
  apply (simp add: employee_granted_def random_def Let_def)
  apply (intro impI allI conjI clock_ok_schedule clock_ok_release)
  apply (simp_all add: NORMAL_def URGENT_def)
  done

lemma clock_ok_employee_served: "clock_ok s \<Longrightarrow> clock_ok (employee_served k s)"
  apply (simp add: employee_served_def)
  apply (intro impI allI conjI clock_ok_schedule clock_ok_release)
  apply (simp_all add: NORMAL_def URGENT_def)
  done

lemma clock_ok_callbacks:
  assumes "clock_ok s" and "callbacks cap ev s = Continue s'"
  shows "clock_ok s'"
  using assms
  by (cases ev)
     (auto simp: clock_ok_setup_start clock_ok_setup_resume clock_ok_employee_start
        clock_ok_employee_granted clock_ok_employee_served clock_ok_trigger_put
        split: if_splits)

lemma clock_ok_step:
  assumes "clock_ok s" and "step cap s = Continue s'"
  shows "clock_ok s'"
proof -
  from assms(2) obtain x where x: "x \<in> set (queue s)"
    "\<And>y. y \<in> set (queue s) \<Longrightarrow> \<not> before y x"
    "callbacks cap (event_of x) (popped x s) = Continue s'"
    by (rule step_Continue) blast
  from x(3) have "event_of x \<noteq> Until" by auto
  with assms(1) x(1,2) have "clock_ok (popped x s)" by (rule clock_ok_popped)
  then show ?thesis using x(3) by (rule clock_ok_callbacks)
qed

subsection \<open>Counting pending events\<close>

definition pending :: "(event \<Rightarrow> bool) \<Rightarrow> state \<Rightarrow> nat" where
  "pending P s = length (filter (\<lambda>x. P (event_of x)) (queue s))"

lemma pending_popped:
  "x \<in> set (queue s) \<Longrightarrow>
   pending P s = pending P (popped x s) + (if P (event_of x) then 1 else 0)"
proof -
  have "x \<in> set q \<Longrightarrow> length (filter (\<lambda>x. P (event_of x)) q) =
      length (filter (\<lambda>x. P (event_of x)) (remove1 x q)) + (if P (event_of x) then 1 else 0)"
    for q by (induction q) auto
  then show "x \<in> set (queue s) \<Longrightarrow> ?thesis" by (simp add: pending_def popped_def)
qed

lemma pending_schedule [simp]:
  "pending P (schedule ev p d s) = pending P s + (if P ev then 1 else 0)"
  by (simp add: pending_def schedule_def)

lemma pending_fields [simp]:
  "pending P (s\<lparr>rng := g\<rparr>) = pending P s"
  "pending P (s\<lparr>users := us\<rparr>) = pending P s"
  "pending P (s\<lparr>put_queue := pq\<rparr>) = pending P s"
  "pending P (s\<lparr>employee_count := c\<rparr>) = pending P s"
  "pending P (s\<lparr>arrival_time := a\<rparr>) = pending P s"
  "pending P (s\<lparr>wait_times := ws\<rparr>) = pending P s"
  "pending P (s\<lparr>queue_lengths := qs\<rparr>) = pending P s"
  "pending P (s\<lparr>served_count := n\<rparr>) = pending P s"
  "pending P (s\<lparr>req_log := rl\<rparr>) = pending P s"
  "pending P (s\<lparr>grant_log := gl\<rparr>) = pending P s"
  by (simp_all add: pending_def)

lemma fields_schedule [simp]:
  "now (schedule ev p d s) = now s"
  "rng (schedule ev p d s) = rng s"
  "users (schedule ev p d s) = users s"
  "put_queue (schedule ev p d s) = put_queue s"
  "employee_count (schedule ev p d s) = employee_count s"
  "arrival_time (schedule ev p d s) = arrival_time s"
  "wait_times (schedule ev p d s) = wait_times s"
  "queue_lengths (schedule ev p d s) = queue_lengths s"
  "served_count (schedule ev p d s) = served_count s"
  "req_log (schedule ev p d s) = req_log s"
  "grant_log (schedule ev p d s) = grant_log s"
  by (simp_all add: schedule_def)

lemma fields_popped [simp]:
  "now (popped x s) = time_of x"
  "queue (popped x s) = remove1 x (queue s)"
  "rng (popped x s) = rng s"
  "users (popped x s) = users s"
  "put_queue (popped x s) = put_queue s"
  "employee_count (popped x s) = employee_count s"
  "arrival_time (popped x s) = arrival_time s"
  "wait_times (popped x s) = wait_times s"
  "queue_lengths (popped x s) = queue_lengths s"
  "served_count (popped x s) = served_count s"
  "req_log (popped x s) = req_log s"
  "grant_log (popped x s) = grant_log s"
  by (simp_all add: popped_def)

subsection \<open>Slots, releases and samples\<close>

text \<open>
  The resource never holds more requests than its capacity. A request waits while
  a slot is free only between a release and the dispatch of its release event.
  Every service that is pending or completed has left one sample in each list.
\<close>

fun is_release :: "event \<Rightarrow> bool" where
  "is_release (Release k) = True"
| "is_release ev = False"

fun is_service :: "event \<Rightarrow> bool" where
  "is_service (ServiceDone k) = True"
| "is_service ev = False"

definition cap_ok :: "nat \<Rightarrow> state \<Rightarrow> bool" where
  "cap_ok cap s \<longleftrightarrow> length (users s) \<le> cap"

definition rel_ok :: "nat \<Rightarrow> state \<Rightarrow> bool" where
  "rel_ok cap s \<longleftrightarrow> (put_queue s \<noteq> [] \<longrightarrow> cap - length (users s) \<le> pending is_release s)"

definition samples_ok :: "state \<Rightarrow> bool" where
  "samples_ok s \<longleftrightarrow>
     length (wait_times s) = length (queue_lengths s) \<and>
     served_count s + pending is_service s \<le> length (wait_times s)"

lemma length_remove1_le: "length (remove1 k us) \<le> length us"
  by (simp add: length_remove1)

lemma cap_ok_callbacks:
  assumes "cap_ok cap s" and "callbacks cap ev s = Continue s'"
  shows "cap_ok cap s'"
  using assms length_remove1_le [of _ "users s"]
  by (cases ev)
     (auto simp: cap_ok_def setup_start_def setup_loop_def setup_resume_def employee_start_def
        request_def trigger_put_def employee_granted_def employee_served_def release_def
        random_def Let_def length_remove1 split: if_splits list.splits)

lemma rel_ok_callbacks:
  assumes "rel_ok cap s" and "callbacks cap ev s = Continue s'" and "\<not> is_release ev"
  shows "rel_ok cap s'"
  using assms
  by (cases ev)
     (auto simp: rel_ok_def setup_start_def setup_loop_def setup_resume_def employee_start_def
        request_def trigger_put_def employee_granted_def employee_served_def release_def
        random_def Let_def length_remove1 split: if_splits list.splits)

lemma rel_ok_release:
  assumes "rel_ok cap s" and "x \<in> set (queue s)" and "is_release (event_of x)"
  shows "rel_ok cap (trigger_put cap (popped x s))"
  using assms pending_popped [OF assms(2), of is_release]
  by (auto simp: rel_ok_def trigger_put_def split: list.splits)

lemma samples_ok_callbacks:
  assumes "samples_ok s" and "callbacks cap ev s = Continue s'" and "\<not> is_service ev"
  shows "samples_ok s'"
  using assms
  by (cases ev)
     (auto simp: samples_ok_def setup_start_def setup_loop_def setup_resume_def employee_start_def
        request_def trigger_put_def employee_granted_def employee_served_def release_def
        random_def Let_def split: if_splits list.splits)

lemma samples_ok_served:
  assumes "samples_ok s" and "x \<in> set (queue s)" and "is_service (event_of x)"
  shows "samples_ok (employee_served k (popped x s))"
  using assms pending_popped [OF assms(2), of is_service]
  by (auto simp: samples_ok_def employee_served_def release_def)

lemma pending_zero: "pending P s = 0 \<longleftrightarrow> (\<forall>y \<in> set (queue s). \<not> P (event_of y))"
  by (auto simp: pending_def filter_empty_conv)

lemma pending_pos: "0 < pending P s \<longleftrightarrow> (\<exists>y \<in> set (queue s). P (event_of y))"
  using pending_zero [of P s] by auto

lemma cap_ok_step:
  assumes "cap_ok cap s" and "step cap s = Continue s'"
  shows "cap_ok cap s'"
proof -
  from assms(2) obtain x where x: "x \<in> set (queue s)"
    "callbacks cap (event_of x) (popped x s) = Continue s'"
    by (rule step_Continue) blast
  from assms(1) have "cap_ok cap (popped x s)" by (simp add: cap_ok_def)
  then show ?thesis using x(2) by (rule cap_ok_callbacks)
qed

lemma rel_ok_step:
  assumes "rel_ok cap s" and "step cap s = Continue s'"
  shows "rel_ok cap s'"
proof -
  from assms(2) obtain x where x: "x \<in> set (queue s)"
    "callbacks cap (event_of x) (popped x s) = Continue s'"
    by (rule step_Continue) blast
  show ?thesis
  proof (cases "is_release (event_of x)")
    case True
    then obtain k where "event_of x = Release k" by (cases "event_of x") auto
    with x(2) have "s' = trigger_put cap (popped x s)" by simp
    with rel_ok_release [OF assms(1) x(1) True] show ?thesis by simp
  next
    case False
    with assms(1) pending_popped [OF x(1), of is_release]
    have "rel_ok cap (popped x s)" by (simp add: rel_ok_def)
    then show ?thesis using x(2) False by (rule rel_ok_callbacks)
  qed
qed

lemma samples_ok_step:
  assumes "samples_ok s" and "step cap s = Continue s'"
  shows "samples_ok s'"
proof -
  from assms(2) obtain x where x: "x \<in> set (queue s)"
    "callbacks cap (event_of x) (popped x s) = Continue s'"
    by (rule step_Continue) blast
  show ?thesis
  proof (cases "is_service (event_of x)")
    case True
    then obtain k where "event_of x = ServiceDone k" by (cases "event_of x") auto
    with x(2) have "s' = employee_served k (popped x s)" by simp
    with samples_ok_served [OF assms(1) x(1) True] show ?thesis by simp
  next
    case False
    with assms(1) pending_popped [OF x(1), of is_service]
    have "samples_ok (popped x s)" by (simp add: samples_ok_def)
    then show ?thesis using x(2) False by (rule samples_ok_callbacks)
  qed
qed

subsection \<open>The arrival generator\<close>

text \<open>
  \<^verbatim>\<open>setup\<close> is in one place at a time: about to start, waiting for its
  timeout with fewer than \<open>EXPECTED_EMPLOYEES\<close> employees started, or ended,
  having started them all or having failed.
\<close>

fun is_init :: "event \<Rightarrow> bool" where
  "is_init InitSetup = True"
| "is_init ev = False"

fun is_timeout :: "event \<Rightarrow> bool" where
  "is_timeout SetupTimeout = True"
| "is_timeout ev = False"

fun is_failed :: "event \<Rightarrow> bool" where
  "is_failed (ProcessEnd ok) = (\<not> ok)"
| "is_failed ev = False"

definition setup_ok :: "state \<Rightarrow> bool" where
  "setup_ok s \<longleftrightarrow>
     pending is_init s + pending is_timeout s \<le> 1 \<and>
     employee_count s \<le> EXPECTED_EMPLOYEES \<and>
     (pending is_timeout s = 1 \<longrightarrow> employee_count s < EXPECTED_EMPLOYEES) \<and>
     (pending is_init s = 0 \<and> pending is_timeout s = 0 \<longrightarrow>
        employee_count s = EXPECTED_EMPLOYEES \<or> 0 < pending is_failed s)"

lemma setup_ok_start: "setup_ok (start_scenario g)"
  by (simp add: setup_ok_def start_scenario_def new_environment_def schedule_def pending_def
      EXPECTED_EMPLOYEES_def)

lemma setup_ok_step:
  assumes "setup_ok s" and "step cap s = Continue s'"
  shows "setup_ok s'"
proof -
  from assms(2) obtain x where x: "x \<in> set (queue s)"
    "callbacks cap (event_of x) (popped x s) = Continue s'"
    by (rule step_Continue) blast
  note eqs = pending_popped [OF x(1), of is_init] pending_popped [OF x(1), of is_timeout]
    pending_popped [OF x(1), of is_failed]
  show ?thesis
    using assms(1) x(2) eqs
    by (cases "event_of x")
       (auto simp: setup_ok_def setup_start_def setup_loop_def setup_resume_def
          employee_start_def request_def trigger_put_def employee_granted_def
          employee_served_def release_def random_def Let_def
          split: if_splits list.splits)
qed

text \<open>
  While \<^verbatim>\<open>setup\<close> has not started, nothing else has happened: the resource it
  is about to create replaces no request.
\<close>

definition start_ok :: "state \<Rightarrow> bool" where
  "start_ok s \<longleftrightarrow>
     pending is_init s \<le> 1 \<and>
     (pending is_init s = 1 \<longrightarrow>
        users s = [] \<and> put_queue s = [] \<and> employee_count s = 0 \<and>
        (\<forall>y \<in> set (queue s). event_of y = InitSetup \<or> event_of y = Until))"

lemma start_ok_start: "start_ok (start_scenario g)"
  by (simp add: start_ok_def start_scenario_def new_environment_def schedule_def pending_def)

lemma start_ok_step:
  assumes "start_ok s" and "step cap s = Continue s'"
  shows "start_ok s'"
proof -
  from assms(2) obtain x where x: "x \<in> set (queue s)"
    "callbacks cap (event_of x) (popped x s) = Continue s'"
    by (rule step_Continue) blast
  note eq = pending_popped [OF x(1), of is_init]
  have "pending is_init s' = 0"
  proof (cases "pending is_init s = 1")
    case True
    with assms(1) x(1) have "event_of x = InitSetup \<or> event_of x = Until"
      by (simp add: start_ok_def)
    with x(2) have ev: "event_of x = InitSetup" by auto
    with eq True have "pending is_init (popped x s) = 0" by simp
    with x(2) ev show ?thesis
      by (auto simp: setup_start_def setup_loop_def random_def Let_def)
  next
    case False
    with assms(1) have "pending is_init s = 0" by (simp add: start_ok_def)
    with eq have "pending is_init (popped x s) = 0" by simp
    with x(2) show ?thesis
      by (cases "event_of x")
         (auto simp: setup_start_def setup_loop_def setup_resume_def
          employee_start_def request_def trigger_put_def employee_granted_def
          employee_served_def release_def random_def Let_def
          split: if_splits list.splits)
  qed
  then show ?thesis by (simp add: start_ok_def)
qed


subsection \<open>What each callback leaves unchanged\<close>

lemma setup_loop_frame [simp]:
  "now (setup_loop s) = now s"
  "users (setup_loop s) = users s"
  "put_queue (setup_loop s) = put_queue s"
  "employee_count (setup_loop s) = employee_count s"
  "arrival_time (setup_loop s) = arrival_time s"
  "wait_times (setup_loop s) = wait_times s"
  "queue_lengths (setup_loop s) = queue_lengths s"
  "served_count (setup_loop s) = served_count s"
  "req_log (setup_loop s) = req_log s"
  "grant_log (setup_loop s) = grant_log s"
  by (simp_all add: setup_loop_def random_def Let_def)

lemma release_frame [simp]:
  "now (release k s) = now s"
  "rng (release k s) = rng s"
  "users (release k s) = remove1 k (users s)"
  "put_queue (release k s) = put_queue s"
  "employee_count (release k s) = employee_count s"
  "arrival_time (release k s) = arrival_time s"
  "wait_times (release k s) = wait_times s"
  "queue_lengths (release k s) = queue_lengths s"
  "served_count (release k s) = served_count s"
  "req_log (release k s) = req_log s"
  "grant_log (release k s) = grant_log s"
  by (simp_all add: release_def)

lemma setup_resume_frame [simp]:
  "now (setup_resume s) = now s"
  "users (setup_resume s) = users s"
  "put_queue (setup_resume s) = put_queue s"
  "employee_count (setup_resume s) = employee_count s + 1"
  "arrival_time (setup_resume s) = arrival_time s"
  "wait_times (setup_resume s) = wait_times s"
  "queue_lengths (setup_resume s) = queue_lengths s"
  "served_count (setup_resume s) = served_count s"
  "req_log (setup_resume s) = req_log s"
  "grant_log (setup_resume s) = grant_log s"
  by (simp_all add: setup_resume_def Let_def)

lemma employee_served_frame [simp]:
  "now (employee_served k s) = now s"
  "rng (employee_served k s) = rng s"
  "users (employee_served k s) = remove1 k (users s)"
  "put_queue (employee_served k s) = put_queue s"
  "employee_count (employee_served k s) = employee_count s"
  "arrival_time (employee_served k s) = arrival_time s"
  "wait_times (employee_served k s) = wait_times s"
  "queue_lengths (employee_served k s) = queue_lengths s"
  "served_count (employee_served k s) = served_count s + 1"
  "req_log (employee_served k s) = req_log s"
  "grant_log (employee_served k s) = grant_log s"
  by (simp_all add: employee_served_def)

lemma employee_granted_frame [simp]:
  "now (employee_granted k s) = now s"
  "put_queue (employee_granted k s) = put_queue s"
  "employee_count (employee_granted k s) = employee_count s"
  "arrival_time (employee_granted k s) = arrival_time s"
  "wait_times (employee_granted k s) = wait_times s @ [now s - arrival_time s k]"
  "queue_lengths (employee_granted k s) = queue_lengths s @ [length (put_queue s)]"
  "served_count (employee_granted k s) = served_count s"
  "req_log (employee_granted k s) = req_log s"
  "grant_log (employee_granted k s) = grant_log s"
  by (simp_all add: employee_granted_def random_def Let_def)

lemma setup_start_frame [simp]:
  "now (setup_start cap s) = now s"
  "arrival_time (setup_start cap s) = arrival_time s"
  "wait_times (setup_start cap s) = wait_times s"
  "queue_lengths (setup_start cap s) = queue_lengths s"
  "served_count (setup_start cap s) = served_count s"
  "req_log (setup_start cap s) = req_log s"
  "grant_log (setup_start cap s) = grant_log s"
  "put_queue s = [] \<Longrightarrow> put_queue (setup_start cap s) = []"
  "users s = [] \<Longrightarrow> users (setup_start cap s) = []"
  "employee_count s = 0 \<Longrightarrow> employee_count (setup_start cap s) = 0"
  by (simp_all add: setup_start_def)

lemma trigger_put_frame [simp]:
  "now (trigger_put cap s) = now s"
  "rng (trigger_put cap s) = rng s"
  "employee_count (trigger_put cap s) = employee_count s"
  "arrival_time (trigger_put cap s) = arrival_time s"
  "wait_times (trigger_put cap s) = wait_times s"
  "queue_lengths (trigger_put cap s) = queue_lengths s"
  "served_count (trigger_put cap s) = served_count s"
  "req_log (trigger_put cap s) = req_log s"
  by (simp_all add: trigger_put_def split: list.splits)

subsection \<open>Requests are granted in the order they were made\<close>

text \<open>
  The requests ever made are the requests ever granted followed by the waiting
  queue, in this order; requests and grants carry non-decreasing clock values.
\<close>

definition fifo_inv ::
  "(nat \<times> rat \<times> nat) list \<Rightarrow> (nat \<times> rat) list \<Rightarrow> nat list \<Rightarrow> rat \<Rightarrow> bool" where
  "fifo_inv rl gl pq t \<longleftrightarrow>
     map fst rl = map fst gl @ pq \<and>
     sorted (map snd gl) \<and> (\<forall>u \<in> set (map snd gl). u \<le> t) \<and>
     sorted (map (fst \<circ> snd) rl) \<and> (\<forall>u \<in> set (map (fst \<circ> snd) rl). u \<le> t)"

definition fifo_ok :: "state \<Rightarrow> bool" where
  "fifo_ok s \<longleftrightarrow> fifo_inv (req_log s) (grant_log s) (put_queue s) (now s)"

lemma fifo_ok_start: "fifo_ok (start_scenario g)"
  by (simp add: fifo_ok_def fifo_inv_def start_scenario_def new_environment_def schedule_def)

lemma fifo_inv_grant:
  "fifo_inv rl gl (h # pq) t \<Longrightarrow> fifo_inv rl (gl @ [(h, t)]) pq t"
  by (simp add: fifo_inv_def sorted_append)

lemma fifo_inv_request:
  "fifo_inv rl gl pq t \<Longrightarrow> fifo_inv (rl @ [(k, t, n)]) gl (pq @ [k]) t"
  by (simp add: fifo_inv_def sorted_append del: set_map)

lemma fifo_inv_later:
  "fifo_inv rl gl pq t \<Longrightarrow> t \<le> t' \<Longrightarrow> fifo_inv rl gl pq t'"
  by (auto simp: fifo_inv_def simp del: set_map)

lemma fifo_ok_trigger_put: "fifo_ok s \<Longrightarrow> fifo_ok (trigger_put cap s)"
  by (auto simp: fifo_ok_def trigger_put_def intro: fifo_inv_grant split: list.splits)

lemma fifo_ok_callbacks:
  assumes "fifo_ok s" and "callbacks cap ev s = Continue s'"
    and "ev = InitSetup \<Longrightarrow> put_queue s = []"
  shows "fifo_ok s'"
proof (cases ev)
  case Until
  with assms(2) show ?thesis by simp
next
  case InitSetup
  with assms(2) have s': "s' = setup_start cap s" by simp
  from assms(3) InitSetup have "put_queue s = []" by simp
  with assms(1) show ?thesis by (simp add: s' fifo_ok_def)
next
  case SetupTimeout
  with assms(2) have s': "s' = setup_resume s" by simp
  with assms(1) show ?thesis by (simp add: s' fifo_ok_def)
next
  case (InitEmp k)
  with assms(2) have s': "s' = employee_start cap k s" by simp
  have "fifo_ok (s\<lparr>arrival_time := (arrival_time s)(k := now s)\<rparr>
      \<lparr>put_queue := put_queue s @ [k],
       req_log := req_log s @ [(k, now s, length (put_queue s))]\<rparr>)"
    using assms(1) by (simp add: fifo_ok_def fifo_inv_request)
  from fifo_ok_trigger_put [OF this] show ?thesis
    by (simp add: s' employee_start_def request_def)
next
  case (ReqGranted k)
  with assms(2) have s': "s' = employee_granted k s" by simp
  with assms(1) show ?thesis by (simp add: s' fifo_ok_def)
next
  case (ServiceDone k)
  with assms(2) have s': "s' = employee_served k s" by simp
  with assms(1) show ?thesis by (simp add: s' fifo_ok_def)
next
  case (Release k)
  with assms(2) have s': "s' = trigger_put cap s" by simp
  with assms(1) fifo_ok_trigger_put show ?thesis by simp
next
  case (ProcessEnd ok)
  with assms(2) have s': "s' = s" by (simp split: if_splits)
  with assms(1) show ?thesis by simp
qed

lemma fifo_ok_step:
  assumes "fifo_ok s" and "clock_ok s" and "start_ok s" and "step cap s = Continue s'"
  shows "fifo_ok s'"
proof -
  from assms(4) obtain x where x: "x \<in> set (queue s)"
    "callbacks cap (event_of x) (popped x s) = Continue s'"
    by (rule step_Continue) blast
  from assms(2) x(1) have "now s \<le> time_of x" by (simp add: clock_ok_def)
  with assms(1) have ok: "fifo_ok (popped x s)"
    by (simp add: fifo_ok_def fifo_inv_later)
  have "put_queue (popped x s) = []" if "event_of x = InitSetup"
  proof -
    from that pending_popped [OF x(1), of is_init] assms(3) have "pending is_init s = 1"
      by (simp add: start_ok_def)
    with assms(3) show ?thesis by (simp add: start_ok_def)
  qed
  with ok x(2) show ?thesis by (rule fifo_ok_callbacks)
qed

subsection \<open>What each callback schedules\<close>

lemma pending_mono: "(\<And>ev. P ev \<Longrightarrow> Q ev) \<Longrightarrow> pending P s \<le> pending Q s"
proof -
  assume imp: "\<And>ev. P ev \<Longrightarrow> Q ev"
  have "length (filter (\<lambda>x. P (event_of x)) q) \<le> length (filter (\<lambda>x. Q (event_of x)) q)" for q
    by (induction q) (auto dest: imp)
  then show ?thesis by (simp add: pending_def)
qed

lemma pending_setup_loop:
  "\<not> P SetupTimeout \<Longrightarrow> \<not> P (ProcessEnd True) \<Longrightarrow> \<not> P (ProcessEnd False) \<Longrightarrow>
   pending P (setup_loop s) = pending P s"
  by (simp add: setup_loop_def random_def Let_def)

lemma pending_setup_start:
  "\<not> P SetupTimeout \<Longrightarrow> \<not> P (ProcessEnd True) \<Longrightarrow> \<not> P (ProcessEnd False) \<Longrightarrow>
   pending P (setup_start cap s) = pending P s"
  by (simp add: setup_start_def pending_setup_loop)

lemma pending_setup_resume:
  "\<not> P SetupTimeout \<Longrightarrow> \<not> P (ProcessEnd True) \<Longrightarrow> \<not> P (ProcessEnd False) \<Longrightarrow>
   pending P (setup_resume s) =
     pending P s + (if P (InitEmp (employee_count s + 1)) then 1 else 0)"
  by (simp add: setup_resume_def Let_def pending_setup_loop)

lemma pending_release:
  "pending P (release k s) = pending P s + (if P (Release k) then 1 else 0)"
  by (simp add: release_def)

lemma pending_employee_served:
  "\<not> P (Release k) \<Longrightarrow> \<not> P (ProcessEnd True) \<Longrightarrow>
   pending P (employee_served k s) = pending P s"
  by (simp add: employee_served_def pending_release)

lemma pending_employee_granted:
  "\<not> P (Release k) \<Longrightarrow> \<not> P (ProcessEnd False) \<Longrightarrow> \<not> P (ServiceDone k) \<Longrightarrow>
   pending P (employee_granted k s) = pending P s"
  by (simp add: employee_granted_def random_def Let_def pending_release)

lemma pending_trigger_put:
  "pending P (trigger_put cap s) =
     pending P s +
     (if put_queue s \<noteq> [] \<and> length (users s) < cap \<and> P (ReqGranted (hd (put_queue s)))
      then 1 else 0)"
  by (simp add: trigger_put_def split: list.splits)

lemma put_queue_trigger_put:
  "put_queue (trigger_put cap s) =
     (if length (users s) < cap then tl (put_queue s) else put_queue s)"
  by (simp add: trigger_put_def split: list.splits)

lemma users_trigger_put:
  "users (trigger_put cap s) =
     (if put_queue s \<noteq> [] \<and> length (users s) < cap then users s @ [hd (put_queue s)]
      else users s)"
  by (simp add: trigger_put_def split: list.splits)

lemma due_now:
  assumes ok: "clock_ok s" and mem: "x \<in> set (queue s)"
    and least: "\<And>y. y \<in> set (queue s) \<Longrightarrow> \<not> before y x"
    and pos: "0 < pending P s" and imm: "\<And>ev. P ev \<Longrightarrow> \<not> delayed ev"
  shows "time_of x = now s"
proof -
  from pos obtain y where y: "y \<in> set (queue s)" "P (event_of y)"
    by (auto simp: pending_pos)
  from ok y imm have "time_of y \<le> now s" by (simp add: clock_ok_def)
  moreover from least [OF y(1)] have "time_of x \<le> time_of y"
    by (cases x; cases y) (auto simp: before_def)
  moreover from ok mem have "now s \<le> time_of x" by (simp add: clock_ok_def)
  ultimately show ?thesis by simp
qed

subsection \<open>A single employee on a single machine\<close>

text \<open>
  With one machine, as long as at most one employee has been started, that
  employee is about to arrive, or its request has been granted at its arrival time
  and its process is about to resume, or it has recorded its samples, both 0.
\<close>

fun is_arrival :: "event \<Rightarrow> bool" where
  "is_arrival (InitEmp k) = True"
| "is_arrival ev = False"

fun is_grant :: "event \<Rightarrow> bool" where
  "is_grant (ReqGranted k) = True"
| "is_grant ev = False"

fun late_grant :: "(nat \<Rightarrow> rat) \<Rightarrow> rat \<Rightarrow> event \<Rightarrow> bool" where
  "late_grant a t (ReqGranted k) = (a k \<noteq> t)"
| "late_grant a t ev = False"

lemma late_grant_is_grant: "late_grant a t ev \<Longrightarrow> is_grant ev"
  by (cases ev) auto

lemma is_arrival_immediate: "is_arrival ev \<Longrightarrow> \<not> delayed ev"
  by (cases ev) auto

lemma is_grant_immediate: "is_grant ev \<Longrightarrow> \<not> delayed ev"
  by (cases ev) auto

definition nobody :: "state \<Rightarrow> bool" where
  "nobody s \<longleftrightarrow>
     pending is_arrival s = 0 \<and> pending is_grant s = 0 \<and> users s = [] \<and> put_queue s = [] \<and>
     wait_times s = [] \<and> queue_lengths s = [] \<and> req_log s = []"

definition arriving :: "state \<Rightarrow> bool" where
  "arriving s \<longleftrightarrow>
     pending is_arrival s = 1 \<and> pending is_grant s = 0 \<and> users s = [] \<and> put_queue s = [] \<and>
     wait_times s = [] \<and> queue_lengths s = [] \<and> req_log s = []"

definition granted :: "state \<Rightarrow> bool" where
  "granted s \<longleftrightarrow>
     pending is_arrival s = 0 \<and> pending is_grant s = 1 \<and> put_queue s = [] \<and>
     wait_times s = [] \<and> queue_lengths s = [] \<and> map (snd \<circ> snd) (req_log s) = [0] \<and>
     pending (late_grant (arrival_time s) (now s)) s = 0"

definition sampled :: "state \<Rightarrow> bool" where
  "sampled s \<longleftrightarrow>
     pending is_arrival s = 0 \<and> pending is_grant s = 0 \<and> put_queue s = [] \<and>
     wait_times s = [0] \<and> queue_lengths s = [0] \<and> map (snd \<circ> snd) (req_log s) = [0]"

definition single_ok :: "state \<Rightarrow> bool" where
  "single_ok s \<longleftrightarrow>
     (employee_count s = 0 \<longrightarrow> nobody s) \<and>
     (employee_count s = 1 \<longrightarrow> arriving s \<or> granted s \<or> sampled s)"

lemma single_ok_start: "single_ok (start_scenario g)"
  by (simp add: single_ok_def nobody_def start_scenario_def new_environment_def schedule_def
      pending_def)


lemma single_ok_step:
  assumes inv: "single_ok s" and clk: "clock_ok s" and st: "start_ok s"
    and step: "step 1 s = Continue s'"
  shows "single_ok s'"
proof -
  from step obtain x where mem: "x \<in> set (queue s)"
    and least: "\<And>y. y \<in> set (queue s) \<Longrightarrow> \<not> before y x"
    and cb: "callbacks 1 (event_of x) (popped x s) = Continue s'"
    by (rule step_Continue) blast
  let ?p = "popped x s"
  note eqA = pending_popped [OF mem, of is_arrival]
  note eqG = pending_popped [OF mem, of is_grant]
  note eqL = pending_popped [OF mem, of "late_grant (arrival_time s) (now s)"]
  have same_now: "time_of x = now s" if "granted s"
  proof -
    from that have pos: "0 < pending is_grant s" by (simp add: granted_def)
    show ?thesis
    proof (rule due_now [OF clk mem])
      show "\<not> before y x" if "y \<in> set (queue s)" for y using that by (rule least)
      show "0 < pending is_grant s" by (rule pos)
      show "\<not> delayed ev" if "is_grant ev" for ev using that by (rule is_grant_immediate)
    qed
  qed
  have quiet: "nobody ?p" if "nobody s" "\<not> is_arrival (event_of x)" "\<not> is_grant (event_of x)"
    using that eqA eqG by (simp add: nobody_def)
  have quiet_arr: "arriving ?p"
    if "arriving s" "\<not> is_arrival (event_of x)" "\<not> is_grant (event_of x)"
    using that eqA eqG by (simp add: arriving_def)
  have quiet_gr: "granted ?p"
    if "granted s" "\<not> is_arrival (event_of x)" "\<not> is_grant (event_of x)"
  proof -
    from that(3) have "\<not> late_grant (arrival_time s) (now s) (event_of x)"
      using late_grant_is_grant by blast
    with that eqA eqG eqL same_now [OF that(1)] show ?thesis by (simp add: granted_def)
  qed
  have quiet_sam: "sampled ?p"
    if "sampled s" "\<not> is_arrival (event_of x)" "\<not> is_grant (event_of x)"
    using that eqA eqG by (simp add: sampled_def)
  have quiet_all: "single_ok ?p"
    if "\<not> is_arrival (event_of x)" "\<not> is_grant (event_of x)"
    using inv that quiet quiet_arr quiet_gr quiet_sam by (auto simp: single_ok_def)
  show ?thesis
  proof (cases "event_of x")
    case Until
    with cb show ?thesis by simp
  next
    case InitSetup
    with cb have s': "s' = setup_start 1 ?p" by simp
    from InitSetup eqA pending_popped [OF mem, of is_init] st
    have "pending is_init s = 1" by (simp add: start_ok_def)
    with st have c0: "employee_count s = 0" by (simp add: start_ok_def)
    with inv have "nobody s" by (simp add: single_ok_def)
    with InitSetup have "nobody ?p" by (intro quiet) simp_all
    then have "nobody s'"
      by (simp add: s' nobody_def pending_setup_start)
    moreover have "employee_count s' = 0" using c0 by (simp add: s')
    ultimately show ?thesis by (simp add: single_ok_def)
  next
    case SetupTimeout
    with cb have s': "s' = setup_resume ?p" by simp
    from SetupTimeout have ok: "single_ok ?p" by (intro quiet_all) simp_all
    show ?thesis
    proof (cases "employee_count s = 0")
      case True
      with ok have "nobody ?p" by (simp add: single_ok_def)
      then have "arriving s'"
        by (simp add: s' nobody_def arriving_def pending_setup_resume)
      then show ?thesis using True by (simp add: single_ok_def s')
    next
      case False
      then show ?thesis by (simp add: single_ok_def s')
    qed
  next
    case (InitEmp k)
    with cb have s': "s' = employee_start 1 k ?p" by simp
    from InitEmp eqA have posA: "0 < pending is_arrival s" by simp
    have cnt: "employee_count s' = employee_count s"
      by (simp add: s' employee_start_def request_def)
    show ?thesis
    proof (cases "employee_count s = 1")
      case True
      with inv posA have arr: "arriving s" by (auto simp: single_ok_def granted_def sampled_def)
      let ?a = "(arrival_time s)(k := time_of x)"
      have "pending (late_grant ?a (time_of x)) ?p \<le> pending is_grant ?p"
        by (rule pending_mono) (rule late_grant_is_grant)
      moreover from arr InitEmp eqA eqG have "pending is_grant ?p = 0"
        and "pending is_arrival ?p = 0"
        by (simp_all add: arriving_def)
      ultimately have "granted s'"
        using arr
        by (simp add: s' employee_start_def request_def granted_def arriving_def
            pending_trigger_put put_queue_trigger_put)
      with True cnt show ?thesis by (simp add: single_ok_def)
    next
      case False
      with inv posA cnt show ?thesis by (auto simp: single_ok_def nobody_def)
    qed
  next
    case (ReqGranted k)
    with cb have s': "s' = employee_granted k ?p" by simp
    from ReqGranted eqG have posG: "0 < pending is_grant s" by simp
    have cnt: "employee_count s' = employee_count s" by (simp add: s')
    show ?thesis
    proof (cases "employee_count s = 1")
      case True
      with inv posG have gr: "granted s" by (auto simp: single_ok_def arriving_def sampled_def)
      from gr have "pending (late_grant (arrival_time s) (now s)) s = 0"
        by (simp add: granted_def)
      with mem ReqGranted have "arrival_time s k = now s"
        by (auto simp: pending_zero)
      with same_now [OF gr] have "time_of x - arrival_time s k = 0" by simp
      moreover from gr ReqGranted eqA eqG have "pending is_grant ?p = 0"
        and "pending is_arrival ?p = 0"
        by (simp_all add: granted_def)
      ultimately have "sampled s'"
        using gr by (simp add: s' sampled_def granted_def pending_employee_granted)
      with True cnt show ?thesis by (simp add: single_ok_def)
    next
      case False
      with inv posG cnt show ?thesis by (auto simp: single_ok_def nobody_def)
    qed
  next
    case (ServiceDone k)
    with cb have s': "s' = employee_served k ?p" by simp
    from ServiceDone have ok: "single_ok ?p" by (intro quiet_all) simp_all
    have "nobody s'" if "nobody ?p"
      using that by (simp add: s' nobody_def pending_employee_served)
    moreover have "arriving s'" if "arriving ?p"
      using that by (simp add: s' arriving_def pending_employee_served)
    moreover have "granted s'" if "granted ?p"
      using that by (simp add: s' granted_def pending_employee_served)
    moreover have "sampled s'" if "sampled ?p"
      using that by (simp add: s' sampled_def pending_employee_served)
    moreover have "employee_count s' = employee_count ?p" by (simp add: s')
    ultimately show ?thesis using ok by (auto simp: single_ok_def)
  next
    case (Release k)
    with cb have s': "s' = trigger_put 1 ?p" by simp
    from Release have ok: "single_ok ?p" by (intro quiet_all) simp_all
    have "nobody s'" if "nobody ?p"
      using that by (simp add: s' nobody_def pending_trigger_put put_queue_trigger_put
          users_trigger_put)
    moreover have "arriving s'" if "arriving ?p"
      using that by (simp add: s' arriving_def pending_trigger_put put_queue_trigger_put
          users_trigger_put)
    moreover have "granted s'" if "granted ?p"
      using that by (simp add: s' granted_def pending_trigger_put put_queue_trigger_put)
    moreover have "sampled s'" if "sampled ?p"
      using that by (simp add: s' sampled_def pending_trigger_put put_queue_trigger_put)
    moreover have "employee_count s' = employee_count ?p" by (simp add: s')
    ultimately show ?thesis using ok by (auto simp: single_ok_def)
  next
    case (ProcessEnd b)
    with cb have s': "s' = ?p" by (simp split: if_splits)
    from ProcessEnd have "single_ok ?p" by (intro quiet_all) simp_all
    then show ?thesis by (simp add: s')
  qed
qed

subsection \<open>Employees, their requests and their arrival times\<close>

text \<open>
  The employees are numbered as \<^verbatim>\<open>setup\<close> starts them, and each starts its process
  before \<^verbatim>\<open>setup\<close> goes on: the initialisation event is urgent, the timeout is
  not. So every employee calls \<^verbatim>\<open>request\<close> once, its \<open>arrival_time\<close> is the clock
  value logged with that call, and an employee whose request event is pending has
  been granted.
\<close>

definition ids_ok :: "state \<Rightarrow> bool" where
  "ids_ok s \<longleftrightarrow>
     pending is_arrival s \<le> 1 \<and>
     (0 < pending is_init s \<longrightarrow> req_log s = []) \<and>
     (\<forall>y \<in> set (queue s).
        (is_arrival (event_of y) \<longrightarrow>
           prio_of y = URGENT \<and> event_of y = InitEmp (employee_count s)) \<and>
        (is_timeout (event_of y) \<longrightarrow> prio_of y = NORMAL) \<and>
        (\<forall>k. event_of y = ReqGranted k \<longrightarrow> k \<in> fst ` set (grant_log s))) \<and>
     (\<forall>e \<in> set (req_log s).
        fst e + pending is_arrival s \<le> employee_count s \<and>
        arrival_time s (fst e) = fst (snd e)) \<and>
     distinct (map fst (req_log s))"

lemma ids_ok_start: "ids_ok (start_scenario g)"
  by (simp add: ids_ok_def start_scenario_def new_environment_def schedule_def pending_def
      URGENT_def)

lemma ids_ok_same:
  assumes "queue s' = queue s" and "employee_count s' = employee_count s"
    and "arrival_time s' = arrival_time s" and "req_log s' = req_log s"
    and "grant_log s' = grant_log s"
  shows "ids_ok s' = ids_ok s"
  using assms by (simp add: ids_ok_def pending_def)

lemma ids_ok_schedule:
  assumes "ids_ok s" and "\<not> is_arrival ev" and "\<not> is_init ev"
    and "is_timeout ev \<Longrightarrow> p = NORMAL"
    and "\<And>k. ev = ReqGranted k \<Longrightarrow> k \<in> fst ` set (grant_log s)"
  shows "ids_ok (schedule ev p d s)"
  using assms by (auto simp: ids_ok_def schedule_def pending_def)

lemma ids_ok_release: "ids_ok s \<Longrightarrow> ids_ok (release k s)"
proof -
  assume "ids_ok s"
  then have "ids_ok (s\<lparr>users := remove1 k (users s)\<rparr>)"
    using ids_ok_same [of "s\<lparr>users := remove1 k (users s)\<rparr>" s] by simp
  then show ?thesis unfolding release_def by (rule ids_ok_schedule) simp_all
qed

lemma ids_ok_setup_loop:
  assumes "ids_ok s"
  shows "ids_ok (setup_loop s)"
proof -
  have r: "ids_ok (s\<lparr>rng := g\<rparr>)" for g
    using assms ids_ok_same [of "s\<lparr>rng := g\<rparr>" s] by simp
  show ?thesis
    apply (simp add: setup_loop_def random_def Let_def)
    apply (intro impI conjI ids_ok_schedule r assms)
    apply (simp_all add: NORMAL_def)
    done
qed

lemma ids_ok_trigger_put:
  assumes "ids_ok s"
  shows "ids_ok (trigger_put cap s)"
proof (cases "put_queue s")
  case Nil
  with assms show ?thesis by (simp add: trigger_put_def)
next
  case (Cons h rest)
  show ?thesis
  proof (cases "length (users s) < cap")
    case True
    let ?s = "s\<lparr>users := users s @ [h], put_queue := rest,
      grant_log := grant_log s @ [(h, now s)]\<rparr>"
    have "ids_ok ?s" using assms by (auto simp: ids_ok_def pending_def)
    then have "ids_ok (schedule (ReqGranted h) NORMAL 0 ?s)"
      by (rule ids_ok_schedule) simp_all
    with Cons True show ?thesis by (simp add: trigger_put_def)
  next
    case False
    with Cons assms show ?thesis by (simp add: trigger_put_def)
  qed
qed

lemma arrival_before_timeout:
  assumes clk: "clock_ok s" and ids: "ids_ok s" and mem: "x \<in> set (queue s)"
    and least: "\<And>y. y \<in> set (queue s) \<Longrightarrow> \<not> before y x"
    and ev: "event_of x = SetupTimeout"
  shows "pending is_arrival s = 0"
proof (rule ccontr)
  assume "pending is_arrival s \<noteq> 0"
  then obtain y where y: "y \<in> set (queue s)" "is_arrival (event_of y)"
    by (auto simp: pending_zero)
  from ids y have py: "prio_of y = URGENT" by (simp add: ids_ok_def)
  from ids mem ev have px: "prio_of x = NORMAL" by (simp add: ids_ok_def)
  from clk y is_arrival_immediate [OF y(2)] have "time_of y \<le> now s"
    by (simp add: clock_ok_def)
  moreover from clk mem have "now s \<le> time_of x" by (simp add: clock_ok_def)
  ultimately have "before y x"
    using py px by (cases x; cases y) (auto simp: before_def URGENT_def NORMAL_def)
  with least [OF y(1)] show False by simp
qed


lemma ids_ok_popped:
  assumes "ids_ok s" and "x \<in> set (queue s)"
  shows "ids_ok (popped x s)"
proof -
  note a = pending_popped [OF assms(2), of is_arrival]
  note i = pending_popped [OF assms(2), of is_init]
  have sub: "y \<in> set (queue s)" if "y \<in> set (remove1 x (queue s))" for y
    using that set_remove1_subset [of x "queue s"] by auto
  show ?thesis
    unfolding ids_ok_def using assms(1) a i
    by (auto simp: ids_ok_def dest!: sub)
qed

lemma ids_ok_step:
  assumes ids: "ids_ok s" and clk: "clock_ok s" and st: "start_ok s"
    and step: "step cap s = Continue s'"
  shows "ids_ok s'"
proof -
  from step obtain x where mem: "x \<in> set (queue s)"
    and least: "\<And>y. y \<in> set (queue s) \<Longrightarrow> \<not> before y x"
    and cb: "callbacks cap (event_of x) (popped x s) = Continue s'"
    by (rule step_Continue) blast
  let ?p = "popped x s"
  have p: "ids_ok ?p" using ids mem by (rule ids_ok_popped)
  note eqA = pending_popped [OF mem, of is_arrival]
  note eqI = pending_popped [OF mem, of is_init]
  show ?thesis
  proof (cases "event_of x")
    case Until
    with cb show ?thesis by simp
  next
    case InitSetup
    with eqI st have "pending is_init s = 1" by (simp add: start_ok_def)
    with st have c0: "employee_count s = 0" by (simp add: start_ok_def)
    have "ids_ok (?p\<lparr>users := [], put_queue := [], employee_count := 0\<rparr>)"
      using p c0 ids_ok_same [of "?p\<lparr>users := [], put_queue := [], employee_count := 0\<rparr>" ?p]
      by simp
    then have "ids_ok (setup_loop (?p\<lparr>users := [], put_queue := [], employee_count := 0\<rparr>))"
      by (rule ids_ok_setup_loop)
    moreover have "ids_ok (schedule (ProcessEnd False) NORMAL 0 ?p)"
      using p by (rule ids_ok_schedule) simp_all
    ultimately show ?thesis using cb InitSetup by (auto simp: setup_start_def)
  next
    case SetupTimeout
    from clk ids mem least SetupTimeout have "pending is_arrival s = 0"
      by (rule arrival_before_timeout)
    with eqA have a0: "pending is_arrival ?p = 0" by simp
    then have none: "\<not> is_arrival (event_of y)" if "y \<in> set (queue ?p)" for y
      using that by (simp add: pending_zero)
    let ?q = "schedule (InitEmp (employee_count ?p + 1)) URGENT 0
      (?p\<lparr>employee_count := employee_count ?p + 1\<rparr>)"
    have "ids_ok ?q"
      unfolding ids_ok_def using p a0 none
      by (auto simp: ids_ok_def schedule_def pending_def)
    then have "ids_ok (setup_loop ?q)" by (rule ids_ok_setup_loop)
    with cb SetupTimeout show ?thesis by (auto simp: setup_resume_def Let_def)
  next
    case (InitEmp k)
    from ids mem InitEmp have k: "k = employee_count s" by (auto simp: ids_ok_def)
    from ids have "pending is_arrival s \<le> 1" by (simp add: ids_ok_def)
    with eqA InitEmp have a1: "pending is_arrival s = 1" and a0: "pending is_arrival ?p = 0"
      by simp_all
    have i0: "pending is_init ?p = 0"
    proof -
      have "pending is_init s \<noteq> 1"
      proof
        assume "pending is_init s = 1"
        with st mem have "event_of x = InitSetup \<or> event_of x = Until"
          by (simp add: start_ok_def)
        with InitEmp show False by simp
      qed
      with st have "pending is_init s = 0" by (simp add: start_ok_def)
      with eqI show ?thesis by simp
    qed
    let ?q = "?p\<lparr>arrival_time := (arrival_time ?p)(k := now ?p),
      put_queue := put_queue ?p @ [k],
      req_log := req_log ?p @ [(k, now ?p, length (put_queue ?p))]\<rparr>"
    have old: "\<forall>e \<in> set (req_log s). fst e < k"
      using ids a1 k by (auto simp: ids_ok_def)
    have "ids_ok ?q"
      unfolding ids_ok_def using p a0 i0 old k
      by (auto simp: ids_ok_def pending_def)
    then have "ids_ok (trigger_put cap ?q)" by (rule ids_ok_trigger_put)
    with cb InitEmp show ?thesis by (simp add: employee_start_def request_def)
  next
    case (ReqGranted k)
    let ?q = "?p\<lparr>wait_times := wait_times ?p @ [now ?p - arrival_time ?p k],
      queue_lengths := queue_lengths ?p @ [length (put_queue ?p)],
      rng := \<lambda>i. rng ?p (Suc (Suc i))\<rparr>"
    have q: "ids_ok ?q" using p ids_ok_same [of ?q ?p] by simp
    have "ids_ok (schedule (ServiceDone k) NORMAL d ?q)" for d
      using q by (rule ids_ok_schedule) simp_all
    moreover have "ids_ok (schedule (ProcessEnd False) NORMAL 0 (release k ?q))"
      using ids_ok_release [OF q] by (rule ids_ok_schedule) simp_all
    ultimately show ?thesis using cb ReqGranted
      by (auto simp: employee_granted_def random_def Let_def)
  next
    case (ServiceDone k)
    let ?q = "?p\<lparr>served_count := served_count ?p + 1\<rparr>"
    have q: "ids_ok ?q" using p ids_ok_same [of ?q ?p] by simp
    have "ids_ok (schedule (ProcessEnd True) NORMAL 0 (release k ?q))"
      using ids_ok_release [OF q] by (rule ids_ok_schedule) simp_all
    with cb ServiceDone show ?thesis by (auto simp: employee_served_def)
  next
    case (Release k)
    with cb ids_ok_trigger_put [OF p] show ?thesis by auto
  next
    case (ProcessEnd ok)
    with cb p show ?thesis by (auto split: if_splits)
  qed
qed

subsection \<open>The invariants together, and the end of a run\<close>

lemma cap_ok_start: "cap_ok cap (start_scenario g)"
  by (simp add: cap_ok_def start_scenario_def new_environment_def schedule_def)

lemma rel_ok_start: "rel_ok cap (start_scenario g)"
  by (simp add: rel_ok_def start_scenario_def new_environment_def schedule_def)

lemma samples_ok_start: "samples_ok (start_scenario g)"
  by (simp add: samples_ok_def start_scenario_def new_environment_def schedule_def pending_def)

definition run_ok :: "nat \<Rightarrow> state \<Rightarrow> bool" where
  "run_ok cap s \<longleftrightarrow>
     clock_ok s \<and> start_ok s \<and> setup_ok s \<and> cap_ok cap s \<and> rel_ok cap s \<and> samples_ok s \<and>
     fifo_ok s \<and> ids_ok s"

lemma run_ok_start: "run_ok cap (start_scenario g)"
  by (simp add: run_ok_def clock_ok_start start_ok_start setup_ok_start cap_ok_start
      rel_ok_start samples_ok_start fifo_ok_start ids_ok_start)

lemma run_ok_step: "run_ok cap s \<Longrightarrow> step cap s = Continue s' \<Longrightarrow> run_ok cap s'"
  unfolding run_ok_def
  by (intro conjI clock_ok_step [of s cap s'] start_ok_step [of s cap s']
      setup_ok_step [of s cap s'] cap_ok_step [of cap s s'] rel_ok_step [of cap s s']
      samples_ok_step [of s cap s'] fifo_ok_step [of s cap s'] ids_ok_step [of s cap s'])
     simp_all

text \<open>
  When the stop event is dispatched, every entry left in the heap is a timeout for
  the horizon or later; the collections are as they were.
\<close>

lemma stopped_state:
  assumes ok: "clock_ok s" and stop: "step cap s = Stopped f"
  obtains x where "x \<in> set (queue s)" and "f = popped x s"
    and "time_of x = SIMULATION_DURATION"
    and "\<And>y. y \<in> set (queue s) \<Longrightarrow> delayed (event_of y) \<and> SIMULATION_DURATION \<le> time_of y"
proof -
  from stop obtain x where mem: "x \<in> set (queue s)"
    and least: "\<And>y. y \<in> set (queue s) \<Longrightarrow> \<not> before y x"
    and ev: "event_of x = Until" and f: "f = popped x s"
    by (rule step_Stopped) blast
  from ok mem ev have t: "time_of x = SIMULATION_DURATION" by (simp add: clock_ok_def)
  have "delayed (event_of y) \<and> SIMULATION_DURATION \<le> time_of y" if y: "y \<in> set (queue s)" for y
  proof -
    from least [OF y] t have le: "SIMULATION_DURATION \<le> time_of y"
      by (cases x; cases y) (auto simp: before_def)
    moreover from ok have "now s < SIMULATION_DURATION" by (simp add: clock_ok_def)
    moreover from ok y have "\<not> delayed (event_of y) \<longrightarrow> time_of y \<le> now s"
      by (simp add: clock_ok_def)
    ultimately show ?thesis by auto
  qed
  with mem f t that show thesis by blast
qed

lemma stopped_no_immediate:
  assumes ok: "clock_ok s" and stop: "step cap s = Stopped f"
    and imm: "\<And>ev. P ev \<Longrightarrow> \<not> delayed ev"
  shows "pending P s = 0"
proof -
  from ok stop obtain x where
    all: "\<And>y. y \<in> set (queue s) \<Longrightarrow> delayed (event_of y) \<and> SIMULATION_DURATION \<le> time_of y"
    by (rule stopped_state) blast
  have "\<not> P (event_of y)" if "y \<in> set (queue s)" for y
    using all [OF that] imm [of "event_of y"] by blast
  then show ?thesis by (simp add: pending_zero)
qed

lemma is_release_immediate: "is_release ev \<Longrightarrow> \<not> delayed ev"
  by (cases ev) auto

lemma is_init_immediate: "is_init ev \<Longrightarrow> \<not> delayed ev"
  by (cases ev) auto

lemma is_failed_immediate: "is_failed ev \<Longrightarrow> \<not> delayed ev"
  by (cases ev) auto

lemma trace_run_ok:
  assumes "\<And>s. run_ok cap s \<Longrightarrow> Q s"
    and "\<And>s f. run_ok cap s \<Longrightarrow> step cap s = Stopped f \<Longrightarrow> Q f"
  shows "\<forall>s \<in> set (trace cap (start_scenario g)). Q s"
proof (rule trace_induct_rule [where P = "run_ok cap"])
  show "run_ok cap (start_scenario g)" by (rule run_ok_start)
  show "run_ok cap s'" if "run_ok cap s" "step cap s = Continue s'" for s s'
    using that by (rule run_ok_step)
  show "Q s" if "run_ok cap s" for s using that by (rule assms(1))
  show "Q f" if "run_ok cap s" "step cap s = Stopped f" for s f using that by (rule assms(2))
qed

lemma run_ends_ok:
  assumes "run cap (start_scenario g) = Inr f"
  obtains s where "run_ok cap s" and "step cap s = Stopped f"
proof -
  have "\<exists>s. run_ok cap s \<and> step cap s = Stopped f"
    using assms run_ok_start
  proof (rule run_final)
    show "run_ok cap s'" if "run_ok cap s" "step cap s = Continue s'" for s s'
      using that by (rule run_ok_step)
  qed
  with that show thesis by blast
qed

section \<open>Runs complete\<close>

text \<open>
  What the random module guarantees of a draw: \<open>u\<close> lies in \<open>[0, 1)\<close>, hence
  \<open>- ln (1 - u)\<close> is not negative.
\<close>

definition valid_stream :: "(nat \<Rightarrow> draw) \<Rightarrow> bool" where
  "valid_stream g \<longleftrightarrow> (\<forall>i. 0 \<le> u01 (g i) \<and> u01 (g i) < 1 \<and> 0 \<le> neg_log (g i))"

definition safe :: "state \<Rightarrow> bool" where
  "safe s \<longleftrightarrow> valid_stream (rng s) \<and> pending is_failed s = 0"

lemma valid_stream_shift:
  "valid_stream g \<Longrightarrow> valid_stream (\<lambda>i. g (Suc i))"
  "valid_stream g \<Longrightarrow> valid_stream (\<lambda>i. g (Suc (Suc i)))"
  by (simp_all add: valid_stream_def)

lemma arrival_rate_pos: "0 < arrival_rate t"
  by (simp add: arrival_rate_def LOW_ARRIVAL_RATE_def PEAK_ARRIVAL_RATE_def)

lemma arrival_delay_nonneg: "valid_stream g \<Longrightarrow> \<not> expovariate (arrival_rate t) (g i) < 0"
  using arrival_rate_pos [of t] by (simp add: valid_stream_def expovariate_def not_less)

lemma service_delay_nonneg:
  assumes "valid_stream g"
  shows "\<not> expovariate SERVICE_RATE (g i) * uniform (4 / 5) (6 / 5) (g j) < 0"
proof -
  from assms have "0 \<le> expovariate SERVICE_RATE (g i)"
    by (simp add: valid_stream_def expovariate_def SERVICE_RATE_def)
  moreover from assms have "0 \<le> uniform (4 / 5) (6 / 5) (g j)"
    by (simp add: valid_stream_def uniform_def)
  ultimately show ?thesis by (simp add: not_less)
qed

lemma safe_start: "valid_stream g \<Longrightarrow> safe (start_scenario g)"
  by (simp add: safe_def start_scenario_def new_environment_def schedule_def pending_def)

lemma rng_trigger_put_safe: "safe s \<Longrightarrow> safe (trigger_put cap s)"
  by (simp add: safe_def pending_trigger_put)

lemma safe_setup_loop: "safe s \<Longrightarrow> safe (setup_loop s)"
  by (simp add: safe_def setup_loop_def random_def Let_def arrival_delay_nonneg
      valid_stream_shift)

lemma safe_callbacks:
  assumes "safe s" and "0 < cap" and "callbacks cap ev s = Continue s'"
  shows "safe s'"
proof (cases ev)
  case Until
  with assms show ?thesis by simp
next
  case InitSetup
  have "safe (s\<lparr>users := [], put_queue := [], employee_count := 0\<rparr>)"
    using assms(1) by (simp add: safe_def)
  from safe_setup_loop [OF this] InitSetup assms(2,3) show ?thesis
    by (auto simp: setup_start_def)
next
  case SetupTimeout
  have "safe (schedule (InitEmp (employee_count s + 1)) URGENT 0
      (s\<lparr>employee_count := employee_count s + 1\<rparr>))"
    using assms(1) by (simp add: safe_def)
  from safe_setup_loop [OF this] SetupTimeout assms(3) show ?thesis
    by (auto simp: setup_resume_def Let_def)
next
  case (InitEmp k)
  have "safe (s\<lparr>arrival_time := (arrival_time s)(k := now s),
      put_queue := put_queue s @ [k],
      req_log := req_log s @ [(k, now s, length (put_queue s))]\<rparr>)"
    using assms(1) by (simp add: safe_def)
  from rng_trigger_put_safe [OF this] InitEmp assms(3) show ?thesis
    by (auto simp: employee_start_def request_def)
next
  case (ReqGranted k)
  with assms(1,3) show ?thesis
    by (auto simp: safe_def employee_granted_def random_def Let_def service_delay_nonneg
        valid_stream_shift)
next
  case (ServiceDone k)
  with assms(1,3) show ?thesis
    by (auto simp: safe_def employee_served_def release_def)
next
  case (Release k)
  with assms(1,3) rng_trigger_put_safe show ?thesis by auto
next
  case (ProcessEnd ok)
  with assms(1,3) show ?thesis by (auto split: if_splits)
qed

lemma safe_step:
  assumes "safe s" and "0 < cap" and "step cap s = Continue s'"
  shows "safe s'"
proof -
  from assms(3) obtain x where x: "x \<in> set (queue s)"
    "callbacks cap (event_of x) (popped x s) = Continue s'"
    by (rule step_Continue) blast
  from assms(1) pending_popped [OF x(1), of is_failed] have "safe (popped x s)"
    by (simp add: safe_def)
  then show ?thesis using assms(2) x(2) by (rule safe_callbacks)
qed

lemma step_not_failed:
  assumes "safe s" and "clock_ok s"
  shows "step cap s \<noteq> Failed e"
proof
  assume failed: "step cap s = Failed e"
  from assms(2) have "queue s \<noteq> []" by (auto simp: clock_ok_def)
  then obtain x q where pop: "heappop (queue s) = Some (x, q)"
    by (cases "heappop (queue s)") (auto simp: heappop_None)
  from heappop_Some [OF pop] have mem: "x \<in> set (queue s)" by simp
  from failed pop have "callbacks cap (event_of x) (s\<lparr>now := time_of x, queue := q\<rparr>) = Failed e"
    by (simp add: step_def)
  then have "is_failed (event_of x)"
    by (cases "event_of x") (auto split: if_splits)
  with mem have "0 < pending is_failed s" by (auto simp: pending_pos)
  with assms(1) show False by (simp add: safe_def)
qed

text \<open>
  With draws as the random module gives them and at least one machine, no exception
  escapes the run: it ends at the horizon, and the generator is left in a state
  that gives such draws again.
\<close>

lemma run_completes_from:
  assumes "safe s" and "clock_ok s" and "0 < cap"
  shows "\<exists>f. run cap s = Inr f \<and> valid_stream (rng f)"
  using assms
proof (induction cap s rule: run.induct)
  case (1 capacity s)
  show ?case
  proof (cases "step capacity s")
    case (Continue s')
    have "safe s'" using "1.prems"(1,3) Continue by (rule safe_step)
    moreover have "clock_ok s'" using "1.prems"(2) Continue by (rule clock_ok_step)
    ultimately have "\<exists>f. run capacity s' = Inr f \<and> valid_stream (rng f)"
      using "1.IH" [OF Continue] "1.prems"(3) by blast
    with Continue show ?thesis by (subst run.simps) simp
  next
    case (Stopped f)
    then obtain x where "f = popped x s" by (rule step_Stopped) blast
    with "1.prems"(1) have "valid_stream (rng f)" by (simp add: safe_def)
    with Stopped show ?thesis by (subst run.simps) simp
  next
    case (Failed e)
    with step_not_failed [OF "1.prems"(1,2)] show ?thesis by blast
  qed
qed

lemma scenario_completes:
  assumes "valid_stream g" and "0 < cap"
  shows "\<exists>m g'. scenario cap g = Inr (m, g') \<and> valid_stream g'"
proof -
  from assms obtain f where "run cap (start_scenario g) = Inr f" "valid_stream (rng f)"
    using run_completes_from [OF safe_start clock_ok_start] by blast
  with assms(2) show ?thesis by (simp add: scenario_def)
qed

lemma for_loop_completes:
  assumes "valid_stream g" and "\<forall>n \<in> set ns. 0 < n"
  shows "\<exists>r' g'. for_loop ns (r, g) = Inr (r', g')"
  using assms
proof (induction ns arbitrary: r g)
  case Nil
  then show ?case by simp
next
  case (Cons n ns)
  from Cons.prems have "0 < n" by simp
  with Cons.prems(1) obtain m g1 where sc: "scenario n g = Inr (m, g1)" and v: "valid_stream g1"
    using scenario_completes by blast
  from Cons.prems(2) have "\<forall>k \<in> set ns. 0 < k" by simp
  from Cons.IH [OF v this, of "store_results n m r"] sc show ?case
    by (simp add: iteration_def)
qed

lemma main_completes: "valid_stream g \<Longrightarrow> \<exists>r g'. main g = Inr (r, g')"
  unfolding main_def by (rule for_loop_completes) simp_all

section \<open>Runs on given random streams\<close>

text \<open>The state after \<open>n\<close> dispatched events, when the run gets that far.\<close>

fun after :: "nat \<Rightarrow> nat \<Rightarrow> state \<Rightarrow> state option" where
  "after capacity 0 s = Some s"
| "after capacity (Suc n) s =
     (case step capacity s of
        Continue s' \<Rightarrow> after capacity n s'
      | Stopped s' \<Rightarrow> (if n = 0 then Some s' else None)
      | Failed e \<Rightarrow> None)"

text \<open>The event \<^verbatim>\<open>step\<close> dispatches next.\<close>

definition next_event :: "state \<Rightarrow> event option" where
  "next_event s = map_option (event_of \<circ> fst) (heappop (queue s))"

text \<open>
  Streams for running the model. \<^verbatim>\<open>setup\<close> takes one draw for each
  inter-arrival gap and uses its \<open>neg_log\<close>; an employee takes two draws when its
  service starts and uses the \<open>neg_log\<close> of the first and the \<open>u01\<close> of the second.
  With \<open>slow\<close> every gap is 700 s at the low rate and 70 s at the peak rate, and
  every service takes \<open>35 * 12 * (4/5 + 2/5 * 1/4) = 378\<close> seconds; no two events of
  its run on one machine fall on the same clock value. With \<open>busy\<close> three
  employees arrive at 1 s, 2 s and 3 s and the first is served for 10 s; it goes on
  as \<open>slow\<close>. With \<open>lone\<close> one employee arrives at 10 s and is served for 6 s, and
  nobody else arrives before the horizon.
\<close>

definition constant_stream :: "draw \<Rightarrow> nat \<Rightarrow> draw" where
  "constant_stream d = (\<lambda>i. d)"

definition prefixed :: "draw list \<Rightarrow> (nat \<Rightarrow> draw) \<Rightarrow> nat \<Rightarrow> draw" where
  "prefixed ds g = (\<lambda>i. if i < length ds then ds ! i else g (i - length ds))"

definition slow :: "nat \<Rightarrow> draw" where
  "slow = constant_stream \<lparr>u01 = 1 / 4, neg_log = 35\<rparr>"

definition lone :: "nat \<Rightarrow> draw" where
  "lone = prefixed
     [\<lparr>u01 = 1 / 2, neg_log = 1 / 2\<rparr>, \<lparr>u01 = 1 / 2, neg_log = 200\<rparr>,
      \<lparr>u01 = 1 / 2, neg_log = 1 / 2\<rparr>, \<lparr>u01 = 1 / 2, neg_log = 0\<rparr>]
     (constant_stream \<lparr>u01 = 1 / 2, neg_log = 200\<rparr>)"

definition busy :: "nat \<Rightarrow> draw" where
  "busy = prefixed
     [\<lparr>u01 = 1 / 2, neg_log = 1 / 20\<rparr>, \<lparr>u01 = 1 / 2, neg_log = 1 / 20\<rparr>,
      \<lparr>u01 = 1 / 2, neg_log = 5 / 6\<rparr>, \<lparr>u01 = 1 / 2, neg_log = 0\<rparr>,
      \<lparr>u01 = 1 / 2, neg_log = 1 / 20\<rparr>]
     slow"

lemma trace_head: "s \<in> set (trace cap s)"
  by (subst trace.simps) simp

lemma trace_tail:
  "step cap s = Continue s' \<Longrightarrow> t \<in> set (trace cap s') \<Longrightarrow> t \<in> set (trace cap s)"
  by (subst trace.simps) simp

lemma trace_last: "step cap s = Stopped f \<Longrightarrow> f \<in> set (trace cap s)"
  by (subst trace.simps) simp

lemma after_in_trace: "after cap n s = Some t \<Longrightarrow> t \<in> set (trace cap s)"
proof (induction n arbitrary: s)
  case 0
  then show ?case by (simp add: trace_head)
next
  case (Suc n)
  show ?case
  proof (cases "step cap s")
    case (Continue s')
    with Suc.prems have "after cap n s' = Some t" by simp
    from Suc.IH [OF this] Continue show ?thesis by (rule trace_tail [rotated])
  next
    case (Stopped f)
    with Suc.prems have "t = f" by (simp split: if_splits)
    with Stopped show ?thesis by (simp add: trace_last)
  next
    case (Failed e)
    with Suc.prems show ?thesis by simp
  qed
qed

lemma slow_run:
  "map_sum id (\<lambda>f. (employee_count f, wait_times f, queue_lengths f, served_count f))
     (run 1 (start_scenario slow)) =
   Inr (18, [0, 0, 308, 616, 924, 1232, 1540], [0, 0, 4, 8, 12, 11, 11], 6)"
  by code_simp

lemma slow_4:
  "map_option (\<lambda>s. (employee_count s, pending is_arrival s, pending is_grant s, now s))
     (after 1 4 (start_scenario slow)) =
   Some (1, 0, 0, 700)"
  by code_simp

lemma lone_run:
  "map_sum id (\<lambda>f. (employee_count f, wait_times f, queue_lengths f, queue f))
     (run 1 (start_scenario lone)) =
   Inr (1, [0], [0], [(4010, 1, 4, SetupTimeout)])"
  by code_simp

lemma busy_4:
  "map_option (\<lambda>s. (wait_times s, queue_lengths s, served_count s, pending is_service s))
     (after 1 4 (start_scenario busy)) =
   Some ([0], [0], 0, 1)"
  by code_simp

lemma busy_9:
  "map_option (\<lambda>s. (now s, users s, put_queue s, queue s)) (after 1 9 (start_scenario busy)) =
   Some (11, [], [2, 3],
     [(3600, 0, 1, Until), (703, 1, 10, SetupTimeout), (11, 1, 11, Release 1),
      (11, 1, 12, ProcessEnd True)])"
  by code_simp

lemma busy_11:
  "map_option (\<lambda>s. (next_event s, now s, put_queue s, wait_times s, queue_lengths s, req_log s))
     (after 1 11 (start_scenario busy)) =
   Some (Some (ReqGranted 2), 11, [3], [0], [0], [(1, 1, 0), (2, 2, 0), (3, 3, 1)])"
  by code_simp

lemma busy_12:
  "map_option (\<lambda>s. (wait_times s, queue_lengths s, req_log s, grant_log s, put_queue s))
     (after 1 12 (start_scenario busy)) =
   Some ([0, 9], [0, 1], [(1, 1, 0), (2, 2, 0), (3, 3, 1)], [(1, 1), (2, 11)], [3])"
  by code_simp

lemma busy_15:
  "map_option (\<lambda>s. (next_event s, req_log s, queue_lengths s)) (after 1 15 (start_scenario busy)) =
   Some (Some (ReqGranted 3), [(1, 1, 0), (2, 2, 0), (3, 3, 1)], [0, 1])"
  by code_simp

lemma busy_16:
  "map_option queue_lengths (after 1 16 (start_scenario busy)) = Some [0, 1, 0]"
  by code_simp

lemma lone_main:
  "map_sum id (\<lambda>st. (res_num_machines (fst st), res_utilization (fst st), res_throughput (fst st)))
     (main lone) =
   Inr ([1, 3, 5, 7, 10], [1 / 43200, 0, 0, 0, 0], [1 / 3600, 0, 0, 0, 0])"
  by code_simp

lemma lone_3:
  "map_sum id (\<lambda>st. res_utilization (fst st)) (iteration 3 (no_results, lone)) = Inr [1 / 129600]"
  by code_simp

lemma lone_5:
  "map_sum id (\<lambda>st. res_utilization (fst st)) (iteration 5 (no_results, lone)) = Inr [1 / 216000]"
  by code_simp

lemma lone_5_3:
  "map_sum id (\<lambda>st. res_utilization (fst st))
     (iteration 3 (fst (projr (iteration 5 (no_results, lone))), lone)) =
   Inr [1 / 216000, 1 / 129600]"
  by code_simp

section \<open>The reducers\<close>

text \<open>The arithmetic mean of a list of samples, 0 for no samples.\<close>

definition mean :: "rat list \<Rightarrow> rat" where
  "mean xs = (if xs = [] then 0 else sum_list xs / of_nat (length xs))"

text \<open>
  Utilization as the specification words it: served entities times the mean time of
  one service, over horizon times capacity.
\<close>

definition spec_utilization :: "nat \<Rightarrow> rat \<Rightarrow> rat \<Rightarrow> nat \<Rightarrow> rat" where
  "spec_utilization served mean_service_time horizon capacity =
     (of_nat served * mean_service_time) / (horizon * of_nat capacity)"

section \<open>The claims of the specification\<close>

subsection \<open>C1: utilization\<close>

text \<open>
  C1, amended: for every scenario run the reported utilization is proportional to
  the number of entities that were granted a machine, that is, that left a
  wait-time sample, whether or not their service ended before the horizon, and
  inversely proportional to horizon times capacity. The factor is the constant
  \<open>SERVICE_RATE\<close>, which is positive and the same for every run and every
  capacity; the completion counter does not enter: setting it to any other value
  leaves the utilization as it is.
\<close>

theorem utilization_counts_granted:
  "utilization (metrics cap s) =
     SERVICE_RATE * of_nat (length (wait_times s)) / (SIMULATION_DURATION * of_nat cap) \<and>
   0 < SERVICE_RATE \<and> 0 < SIMULATION_DURATION \<and>
   utilization (metrics cap (s\<lparr>served_count := n\<rparr>)) = utilization (metrics cap s)"
  by (simp add: metrics_def SERVICE_RATE_def SIMULATION_DURATION_def)

text \<open>
  C1 as stated fails. On one machine with the stream \<open>slow\<close>, seven employees are
  granted the machine and six complete their service before the horizon (the
  throughput is \<open>6 / 3600\<close>). The reported utilization is \<open>7 / 43200\<close>, while six
  served entities times the mean service time \<open>1 / SERVICE_RATE\<close> over horizon times
  capacity is \<open>1 / 50\<close>, and seven times the mean service time gives \<open>7 / 300\<close>.
\<close>

theorem utilization_is_not_spec_formula:
  "map_sum id fst (scenario 1 slow) =
     Inr \<lparr>avg_wait_time = 660, avg_queue_length = 46 / 7, utilization = 7 / 43200,
          throughput = 1 / 600\<rparr> \<and>
   spec_utilization 6 (1 / SERVICE_RATE) SIMULATION_DURATION 1 = 1 / 50 \<and>
   spec_utilization 7 (1 / SERVICE_RATE) SIMULATION_DURATION 1 = 7 / 300"
proof -
  from slow_run obtain f where "run 1 (start_scenario slow) = Inr f"
    and "wait_times f = [0, 0, 308, 616, 924, 1232, 1540]"
    and "queue_lengths f = [0, 0, 4, 8, 12, 11, 11]" and "served_count f = 6"
    by (cases "run 1 (start_scenario slow)") auto
  then show ?thesis
    by (simp add: scenario_def metrics_def spec_utilization_def SERVICE_RATE_def
        SIMULATION_DURATION_def)
qed

subsection \<open>C2: what the collector records for a granted entity\<close>

text \<open>
  C2, amended: in every state of a scenario run in which the event of an entity's
  request is the next to be dispatched (the entity was granted and its process is
  about to resume), the entity has called \<^verbatim>\<open>request\<close> at a logged clock value and has
  left the queue, and the step appends one sample to each list without advancing
  the clock: the wait time, which is the clock minus the clock of its
  \<^verbatim>\<open>request\<close> call, and the number of requests waiting in the queue at this moment,
  not at its arrival.
\<close>

theorem samples_taken_at_resumption:
  "\<forall>s \<in> set (trace cap (start_scenario g)). \<forall>k.
     next_event s = Some (ReqGranted k) \<longrightarrow>
       (\<exists>t n s'. (k, t, n) \<in> set (req_log s) \<and> k \<notin> set (put_queue s) \<and>
          step cap s = Continue s' \<and> now s' = now s \<and>
          wait_times s' = wait_times s @ [now s - t] \<and>
          queue_lengths s' = queue_lengths s @ [length (put_queue s)])"
proof -
  let ?Q = "\<lambda>s. \<forall>k. next_event s = Some (ReqGranted k) \<longrightarrow>
       (\<exists>t n s'. (k, t, n) \<in> set (req_log s) \<and> k \<notin> set (put_queue s) \<and>
          step cap s = Continue s' \<and> now s' = now s \<and>
          wait_times s' = wait_times s @ [now s - t] \<and>
          queue_lengths s' = queue_lengths s @ [length (put_queue s)])"
  have during: "?Q s" if ok: "run_ok cap s" for s
  proof (intro allI impI)
    fix k
    assume "next_event s = Some (ReqGranted k)"
    then obtain x q where pop: "heappop (queue s) = Some (x, q)"
      and ev: "event_of x = ReqGranted k"
      by (auto simp: next_event_def)
    from heappop_Some [OF pop] have mem: "x \<in> set (queue s)" by simp
    from ok have clk: "clock_ok s" and fifo: "fifo_ok s" and ids: "ids_ok s"
      by (simp_all add: run_ok_def)
    from clk mem ev have t: "time_of x = now s"
      by (auto simp: clock_ok_def intro: antisym)
    from ids mem ev have g: "k \<in> fst ` set (grant_log s)" by (simp add: ids_ok_def)
    from fifo have eq: "map fst (req_log s) = map fst (grant_log s) @ put_queue s"
      by (simp add: fifo_ok_def fifo_inv_def)
    from ids have "distinct (map fst (req_log s))" by (simp add: ids_ok_def)
    with eq g have out: "k \<notin> set (put_queue s)" by auto
    from g eq have "k \<in> set (map fst (req_log s))" by simp
    then obtain e where e: "e \<in> set (req_log s)" "fst e = k" by auto
    with ids have a: "arrival_time s k = fst (snd e)" by (auto simp: ids_ok_def)
    let ?s' = "employee_granted k (s\<lparr>now := time_of x, queue := q\<rparr>)"
    from e have "(k, fst (snd e), snd (snd e)) \<in> set (req_log s)" by (cases e) auto
    moreover have "step cap s = Continue ?s'"
      using pop ev by (simp add: step_def)
    moreover have "now ?s' = now s" using t by simp
    moreover have "wait_times ?s' = wait_times s @ [now s - fst (snd e)]"
      using t a by simp
    moreover have "queue_lengths ?s' = queue_lengths s @ [length (put_queue s)]"
      by simp
    ultimately show "\<exists>t n s'. (k, t, n) \<in> set (req_log s) \<and> k \<notin> set (put_queue s) \<and>
          step cap s = Continue s' \<and> now s' = now s \<and>
          wait_times s' = wait_times s @ [now s - t] \<and>
          queue_lengths s' = queue_lengths s @ [length (put_queue s)]"
      using out by blast
  qed
  have final: "?Q f" if ok: "run_ok cap s" and stop: "step cap s = Stopped f" for s f
  proof (intro allI impI)
    fix k
    assume "next_event f = Some (ReqGranted k)"
    then obtain x q where pop: "heappop (queue f) = Some (x, q)"
      and ev: "event_of x = ReqGranted k"
      by (auto simp: next_event_def)
    from heappop_Some [OF pop] have mem: "x \<in> set (queue f)" by simp
    from ok have clk: "clock_ok s" by (simp add: run_ok_def)
    from clk stop obtain z where f: "f = popped z s"
      and late: "\<And>y. y \<in> set (queue s) \<Longrightarrow> delayed (event_of y) \<and> SIMULATION_DURATION \<le> time_of y"
      by (rule stopped_state) blast
    from mem have "x \<in> set (queue s)"
      using set_remove1_subset [of z "queue s"] by (auto simp: f)
    from late [OF this] ev have False by simp
    then show "\<exists>t n s'. (k, t, n) \<in> set (req_log f) \<and> k \<notin> set (put_queue f) \<and>
          step cap f = Continue s' \<and> now s' = now f \<and>
          wait_times s' = wait_times f @ [now f - t] \<and>
          queue_lengths s' = queue_lengths f @ [length (put_queue f)]" ..
  qed
  show ?thesis
    using during final by (rule trace_run_ok)
qed

text \<open>
  In the run of \<open>busy\<close> on one machine, after eleven events the request of
  employee 2 is the next event, at clock 11, nine seconds after its arrival, with
  employee 3 waiting.
\<close>

theorem samples_taken_at_resumption_witness:
  "after 1 11 (start_scenario busy) \<noteq> None \<and>
   next_event (the (after 1 11 (start_scenario busy))) = Some (ReqGranted 2) \<and>
   req_log (the (after 1 11 (start_scenario busy))) = [(1, 1, 0), (2, 2, 0), (3, 3, 1)] \<and>
   put_queue (the (after 1 11 (start_scenario busy))) = [3] \<and>
   (\<exists>s'. step 1 (the (after 1 11 (start_scenario busy))) = Continue s' \<and>
      wait_times s' = [0, 9] \<and> queue_lengths s' = [0, 1])"
proof -
  from busy_11 obtain s where s: "after 1 11 (start_scenario busy) = Some s"
    and ev: "next_event s = Some (ReqGranted 2)" and t: "now s = 11"
    and pq: "put_queue s = [3]" and w: "wait_times s = [0]" and ql: "queue_lengths s = [0]"
    and rl: "req_log s = [(1, 1, 0), (2, 2, 0), (3, 3, 1)]"
    by (cases "after 1 11 (start_scenario busy)") auto
  from s have "s \<in> set (trace 1 (start_scenario busy))" by (rule after_in_trace)
  with samples_taken_at_resumption [of 1 busy] ev
  obtain t' n s' where "(2, t', n) \<in> set (req_log s)" and st: "step 1 s = Continue s'"
    and "wait_times s' = wait_times s @ [now s - t']"
    and "queue_lengths s' = queue_lengths s @ [length (put_queue s)]"
    by blast
  with rl t pq w ql have "wait_times s' = [0, 9]" and "queue_lengths s' = [0, 1]"
    by auto
  with st ev rl pq show ?thesis unfolding s by auto
qed

text \<open>
  C2 as stated fails. In the run of \<open>busy\<close> on one machine, employee 3 called
  \<^verbatim>\<open>request\<close> at clock 3 with one request waiting (the last entry of
  \<open>req_log\<close>); after fifteen events its request is dispatched, and the
  queue-length sample the run appends is 0. Employee 2, which arrived with no
  request waiting, has recorded 1.
\<close>

theorem sample_is_not_queue_at_arrival:
  "map_option next_event (after 1 15 (start_scenario busy)) = Some (Some (ReqGranted 3)) \<and>
   map_option req_log (after 1 15 (start_scenario busy)) =
     Some [(1, 1, 0), (2, 2, 0), (3, 3, 1)] \<and>
   map_option queue_lengths (after 1 15 (start_scenario busy)) = Some [0, 1] \<and>
   map_option queue_lengths (after 1 16 (start_scenario busy)) = Some [0, 1, 0]"
proof -
  from busy_15 obtain s where "after 1 15 (start_scenario busy) = Some s"
    and "next_event s = Some (ReqGranted 3)"
    and "req_log s = [(1, 1, 0), (2, 2, 0), (3, 3, 1)]" and "queue_lengths s = [0, 1]"
    by (cases "after 1 15 (start_scenario busy)") auto
  with busy_16 show ?thesis by simp
qed

subsection \<open>C3: when the arrival generator stops\<close>

text \<open>
  C3, amended: the arrival generator never starts more than
  \<open>EXPECTED_EMPLOYEES\<close> entities. When a run ends with fewer, the generator was cut
  off by the horizon: its next inter-arrival timeout is still pending, due at the
  horizon or later. When a run ends with \<open>EXPECTED_EMPLOYEES\<close> entities started,
  the generator has stopped: no timeout of it is pending.
\<close>

theorem spawning_ends_at_target_or_horizon:
  assumes "run cap (start_scenario g) = Inr f"
  shows "employee_count f \<le> EXPECTED_EMPLOYEES \<and>
    (employee_count f < EXPECTED_EMPLOYEES \<longrightarrow>
       (\<exists>x \<in> set (queue f). event_of x = SetupTimeout \<and> SIMULATION_DURATION \<le> time_of x)) \<and>
    (employee_count f = EXPECTED_EMPLOYEES \<longrightarrow> pending is_timeout f = 0)"
proof -
  from assms obtain s where ok: "run_ok cap s" and stop: "step cap s = Stopped f"
    by (rule run_ends_ok)
  from ok have clk: "clock_ok s" and sok: "setup_ok s" by (simp_all add: run_ok_def)
  from clk stop obtain x where x: "x \<in> set (queue s)" and f: "f = popped x s"
    and late: "\<And>y. y \<in> set (queue s) \<Longrightarrow> delayed (event_of y) \<and> SIMULATION_DURATION \<le> time_of y"
    by (rule stopped_state) blast
  have no_init: "pending is_init s = 0"
    using clk stop by (rule stopped_no_immediate) (rule is_init_immediate)
  have no_failed: "pending is_failed s = 0"
    using clk stop by (rule stopped_no_immediate) (rule is_failed_immediate)
  have same: "pending is_timeout f = pending is_timeout s"
  proof -
    from stop obtain z where z: "z \<in> set (queue s)" "event_of z = Until" "f = popped z s"
      by (rule step_Stopped) blast
    from pending_popped [OF z(1), of is_timeout] z(2,3) show ?thesis by simp
  qed
  have count: "employee_count f = employee_count s" by (simp add: f)
  have le: "employee_count f \<le> EXPECTED_EMPLOYEES"
    using sok count by (simp add: setup_ok_def)
  have pend: "\<exists>y \<in> set (queue f). event_of y = SetupTimeout \<and> SIMULATION_DURATION \<le> time_of y"
    if "employee_count f < EXPECTED_EMPLOYEES"
  proof -
    from sok no_init no_failed that count have "0 < pending is_timeout s"
      by (auto simp: setup_ok_def)
    with same have "0 < pending is_timeout f" by simp
    then obtain y where y: "y \<in> set (queue f)" "is_timeout (event_of y)"
      by (auto simp: pending_pos)
    from y(1) have "y \<in> set (queue s)"
      using set_remove1_subset [of x "queue s"] by (auto simp: f)
    from late [OF this] have "SIMULATION_DURATION \<le> time_of y" by simp
    moreover from y(2) have "event_of y = SetupTimeout" by (cases "event_of y") auto
    ultimately show ?thesis using y(1) by blast
  qed
  have finished: "pending is_timeout f = 0" if "employee_count f = EXPECTED_EMPLOYEES"
  proof -
    from sok that count have "pending is_timeout s \<noteq> 1" by (auto simp: setup_ok_def)
    moreover from sok have "pending is_timeout s \<le> 1" by (simp add: setup_ok_def)
    ultimately show ?thesis using same by simp
  qed
  from le pend finished show ?thesis by blast
qed

text \<open>
  The hypothesis of the amended C3 holds for the run of \<open>lone\<close> on one machine: it
  ends with one entity started and the generator's timeout pending for clock 4010.
\<close>

theorem spawning_ends_at_target_or_horizon_witness:
  "\<not> isl (run 1 (start_scenario lone)) \<and>
   employee_count (projr (run 1 (start_scenario lone))) = 1 \<and>
   employee_count (projr (run 1 (start_scenario lone))) < EXPECTED_EMPLOYEES \<and>
   (\<exists>x \<in> set (queue (projr (run 1 (start_scenario lone)))).
      event_of x = SetupTimeout \<and> SIMULATION_DURATION \<le> time_of x)"
proof -
  from lone_run obtain f where f: "run 1 (start_scenario lone) = Inr f"
    and c: "employee_count f = 1"
    by (cases "run 1 (start_scenario lone)") auto
  from c have "employee_count f < EXPECTED_EMPLOYEES" by (simp add: EXPECTED_EMPLOYEES_def)
  with spawning_ends_at_target_or_horizon [OF f] c show ?thesis unfolding f by simp
qed

text \<open>
  C3 as stated fails. With the stream \<open>slow\<close> the run on one machine ends at the
  horizon with 18 entities started, not \<open>EXPECTED_EMPLOYEES\<close>.
\<close>

theorem horizon_cuts_spawning_short:
  "map_sum id employee_count (run 1 (start_scenario slow)) = Inr 18 \<and>
   18 < EXPECTED_EMPLOYEES"
proof -
  from slow_run obtain f where "run 1 (start_scenario slow) = Inr f"
    and "employee_count f = 18"
    by (cases "run 1 (start_scenario slow)") auto
  then show ?thesis by (simp add: EXPECTED_EMPLOYEES_def)
qed

subsection \<open>C4: the averages\<close>

text \<open>
  C4: the reported average wait time is the arithmetic mean of the wait-time
  samples recorded in the run, and the reported average queue length is the
  arithmetic mean of the recorded queue-length samples; both are 0 when no
  sample was recorded.
\<close>

theorem averages_are_means:
  "avg_wait_time (metrics num_machines s) = mean (wait_times s) \<and>
   avg_queue_length (metrics num_machines s) = mean (map of_nat (queue_lengths s))"
proof -
  have "of_nat (sum_list ns) = (sum_list (map of_nat ns) :: rat)" for ns :: "nat list"
    by (induction ns) simp_all
  then show ?thesis
    by (simp add: metrics_def mean_def)
qed

subsection \<open>C5: capacity\<close>

text \<open>
  C5: in every state a scenario run goes through, the resource holds at most
  \<open>capacity\<close> requests. Whenever it holds fewer while a request waits, a release
  event is pending for the current clock value, so that the clock does not advance
  before the queue is triggered; hence when no event is left for the current clock
  value and a slot is free, nobody waits. With a free slot, triggering the queue
  grants the request at its head: it moves from the queue to the users.
\<close>

theorem capacity_bound_and_head_granted:
  "\<forall>s \<in> set (trace cap (start_scenario g)).
     length (users s) \<le> cap \<and>
     (length (users s) < cap \<and> put_queue s \<noteq> [] \<longrightarrow>
        (\<exists>x \<in> set (queue s). is_release (event_of x) \<and> time_of x = now s)) \<and>
     ((\<forall>x \<in> set (queue s). now s < time_of x) \<and> length (users s) < cap \<longrightarrow>
        put_queue s = []) \<and>
     (length (users s) < cap \<longrightarrow>
        users (trigger_put cap s) = users s @ take 1 (put_queue s) \<and>
        put_queue (trigger_put cap s) = drop 1 (put_queue s))"
proof -
  let ?Q = "\<lambda>s. length (users s) \<le> cap \<and>
     (length (users s) < cap \<and> put_queue s \<noteq> [] \<longrightarrow>
        (\<exists>x \<in> set (queue s). is_release (event_of x) \<and> time_of x = now s)) \<and>
     ((\<forall>x \<in> set (queue s). now s < time_of x) \<and> length (users s) < cap \<longrightarrow>
        put_queue s = []) \<and>
     (length (users s) < cap \<longrightarrow>
        users (trigger_put cap s) = users s @ take 1 (put_queue s) \<and>
        put_queue (trigger_put cap s) = drop 1 (put_queue s))"
  have grant: "length (users s) < cap \<longrightarrow>
        users (trigger_put cap s) = users s @ take 1 (put_queue s) \<and>
        put_queue (trigger_put cap s) = drop 1 (put_queue s)" for s
    by (simp add: trigger_put_def split: list.splits)
  have during: "?Q s" if ok: "run_ok cap s" for s
  proof -
    from ok have clk: "clock_ok s" and cap: "cap_ok cap s" and rel: "rel_ok cap s"
      by (simp_all add: run_ok_def)
    have pend: "\<exists>x \<in> set (queue s). is_release (event_of x) \<and> time_of x = now s"
      if "length (users s) < cap" "put_queue s \<noteq> []"
    proof -
      from rel that have "0 < pending is_release s" by (simp add: rel_ok_def)
      then obtain x where x: "x \<in> set (queue s)" "is_release (event_of x)"
        by (auto simp: pending_pos)
      from clk x is_release_immediate [OF x(2)] have "time_of x = now s"
        by (auto simp: clock_ok_def intro: antisym)
      with x show ?thesis by blast
    qed
    have "put_queue s = []"
      if "\<forall>x \<in> set (queue s). now s < time_of x" "length (users s) < cap"
    proof (rule ccontr)
      assume "put_queue s \<noteq> []"
      from pend [OF that(2) this] that(1) show False by auto
    qed
    with cap pend grant show ?thesis by (auto simp: cap_ok_def)
  qed
  have final: "?Q f" if ok: "run_ok cap s" and stop: "step cap s = Stopped f" for s f
  proof -
    from ok have clk: "clock_ok s" and cap: "cap_ok cap s" and rel: "rel_ok cap s"
      by (simp_all add: run_ok_def)
    from clk stop obtain x where f: "f = popped x s"
      by (rule stopped_state) blast
    from clk stop have "pending is_release s = 0"
      by (rule stopped_no_immediate) (rule is_release_immediate)
    with rel have "put_queue s = [] \<or> cap \<le> length (users s)"
      by (auto simp: rel_ok_def)
    with cap grant [of f] show ?thesis by (auto simp: f cap_ok_def)
  qed
  show ?thesis
    using during final by (rule trace_run_ok)
qed

text \<open>
  In the run of \<open>busy\<close> on one machine, after nine events employee 1 has released
  the machine while employees 2 and 3 wait: the release event is pending for the
  current clock value, and triggering the queue grants employee 2.
\<close>

theorem capacity_bound_and_head_granted_witness:
  "after 1 9 (start_scenario busy) \<noteq> None \<and>
   length (users (the (after 1 9 (start_scenario busy)))) < 1 \<and>
   put_queue (the (after 1 9 (start_scenario busy))) = [2, 3] \<and>
   (\<exists>x \<in> set (queue (the (after 1 9 (start_scenario busy)))).
      is_release (event_of x) \<and> time_of x = now (the (after 1 9 (start_scenario busy)))) \<and>
   users (trigger_put 1 (the (after 1 9 (start_scenario busy)))) = [2] \<and>
   put_queue (trigger_put 1 (the (after 1 9 (start_scenario busy)))) = [3]"
proof -
  from busy_9 obtain s where s: "after 1 9 (start_scenario busy) = Some s"
    and u: "users s = []" and pq: "put_queue s = [2, 3]"
    by (cases "after 1 9 (start_scenario busy)") auto
  from s have "s \<in> set (trace 1 (start_scenario busy))" by (rule after_in_trace)
  with capacity_bound_and_head_granted [of 1 busy]
  have "length (users s) < 1 \<and> put_queue s \<noteq> [] \<longrightarrow>
        (\<exists>x \<in> set (queue s). is_release (event_of x) \<and> time_of x = now s)"
    and "length (users s) < 1 \<longrightarrow>
        users (trigger_put 1 s) = users s @ take 1 (put_queue s) \<and>
        put_queue (trigger_put 1 s) = drop 1 (put_queue s)"
    by blast+
  with u pq show ?thesis unfolding s by simp
qed

subsection \<open>C6: first come, first served\<close>

text \<open>
  C6: in every state a scenario run goes through, the entities granted so far are
  the first of those that requested, in the order of their requests, and the
  waiting queue holds the others in that order: an entity that requested before
  another is granted before it, or is ahead of it in the queue. Requests are made
  and grants are given at non-decreasing clock values, so the earlier requester is
  granted no later.
\<close>

theorem requests_granted_in_request_order:
  "\<forall>s \<in> set (trace cap (start_scenario g)).
     map fst (grant_log s) = take (length (grant_log s)) (map fst (req_log s)) \<and>
     put_queue s = drop (length (grant_log s)) (map fst (req_log s)) \<and>
     sorted (map (fst \<circ> snd) (req_log s)) \<and>
     sorted (map snd (grant_log s))"
proof -
  let ?Q = "\<lambda>s. map fst (grant_log s) = take (length (grant_log s)) (map fst (req_log s)) \<and>
     put_queue s = drop (length (grant_log s)) (map fst (req_log s)) \<and>
     sorted (map (fst \<circ> snd) (req_log s)) \<and>
     sorted (map snd (grant_log s))"
  have fifo: "?Q s" if "fifo_ok s" for s
  proof -
    from that have eq: "map fst (req_log s) = map fst (grant_log s) @ put_queue s"
      and "sorted (map (fst \<circ> snd) (req_log s))" "sorted (map snd (grant_log s))"
      by (simp_all add: fifo_ok_def fifo_inv_def)
    then show ?thesis by simp
  qed
  have during: "?Q s" if "run_ok cap s" for s
    using that by (intro fifo) (simp add: run_ok_def)
  have final: "?Q f" if ok: "run_ok cap s" and stop: "step cap s = Stopped f" for s f
  proof -
    from ok have clk: "clock_ok s" by (simp add: run_ok_def)
    from clk stop obtain x where f: "f = popped x s"
      by (rule stopped_state) blast
    from during [OF ok] show ?thesis by (simp add: f)
  qed
  show ?thesis
    using during final by (rule trace_run_ok)
qed

text \<open>
  In the run of \<open>busy\<close> on one machine, after twelve events employees 1, 2 and 3
  have requested in this order, 1 and 2 have been granted in this order, at clocks
  1 and 11, and 3 waits.
\<close>

theorem requests_granted_in_request_order_witness:
  "after 1 12 (start_scenario busy) \<noteq> None \<and>
   map fst (req_log (the (after 1 12 (start_scenario busy)))) = [1, 2, 3] \<and>
   map fst (grant_log (the (after 1 12 (start_scenario busy)))) = [1, 2] \<and>
   put_queue (the (after 1 12 (start_scenario busy))) = [3] \<and>
   map fst (grant_log (the (after 1 12 (start_scenario busy)))) =
     take (length (grant_log (the (after 1 12 (start_scenario busy)))))
       (map fst (req_log (the (after 1 12 (start_scenario busy))))) \<and>
   sorted (map snd (grant_log (the (after 1 12 (start_scenario busy)))))"
proof -
  from busy_12 obtain s where s: "after 1 12 (start_scenario busy) = Some s"
    and r: "req_log s = [(1, 1, 0), (2, 2, 0), (3, 3, 1)]"
    and g: "grant_log s = [(1, 1), (2, 11)]" and pq: "put_queue s = [3]"
    by (cases "after 1 12 (start_scenario busy)") auto
  from s have "s \<in> set (trace 1 (start_scenario busy))" by (rule after_in_trace)
  with requests_granted_in_request_order [of 1 busy]
  have "map fst (grant_log s) = take (length (grant_log s)) (map fst (req_log s)) \<and>
     sorted (map snd (grant_log s))"
    by blast
  with r g pq show ?thesis unfolding s by simp
qed

subsection \<open>C7: one machine, one entity\<close>

text \<open>
  C7: in every run on one machine, in every state in which exactly one entity has
  been started, so that no other entity competes with it, no request waits in the
  queue; until that entity has arrived and resumed with its grant, nothing is
  recorded, and from then on its recorded wait time is 0, its recorded
  queue-length sample is 0, and the number of requests waiting when it arrived was
  0. In particular a run that ends with exactly one entity started has recorded
  the wait time 0 and the queue-length sample 0 for it.
\<close>

theorem single_entity_waits_zero:
  "(\<forall>s \<in> set (trace 1 (start_scenario g)). employee_count s = 1 \<longrightarrow>
      put_queue s = [] \<and>
      (if pending is_arrival s = 0 \<and> pending is_grant s = 0
       then wait_times s = [0] \<and> queue_lengths s = [0] \<and> map (snd \<circ> snd) (req_log s) = [0]
       else wait_times s = [] \<and> queue_lengths s = [])) \<and>
   (\<forall>f. run 1 (start_scenario g) = Inr f \<and> employee_count f = 1 \<longrightarrow>
      wait_times f = [0] \<and> queue_lengths f = [0] \<and> map (snd \<circ> snd) (req_log f) = [0])"
proof -
  let ?P = "\<lambda>s. run_ok 1 s \<and> single_ok s"
  have start: "?P (start_scenario g)" by (simp add: run_ok_start single_ok_start)
  have pres: "?P s'" if "?P s" "step 1 s = Continue s'" for s s'
    using that run_ok_step [of 1 s s'] single_ok_step [of s s'] by (simp add: run_ok_def)
  have final: "put_queue f = [] \<and> pending is_arrival f = 0 \<and> pending is_grant f = 0 \<and>
      wait_times f = [0] \<and> queue_lengths f = [0] \<and> map (snd \<circ> snd) (req_log f) = [0]"
    if inv: "?P s" and stop: "step 1 s = Stopped f" and one: "employee_count f = 1" for s f
  proof -
    from inv have clk: "clock_ok s" and single: "single_ok s" by (simp_all add: run_ok_def)
    from clk stop obtain x where mem: "x \<in> set (queue s)" and f: "f = popped x s"
      by (rule stopped_state) blast
    have a: "pending is_arrival s = 0"
      using clk stop by (rule stopped_no_immediate) (rule is_arrival_immediate)
    have g: "pending is_grant s = 0"
      using clk stop by (rule stopped_no_immediate) (rule is_grant_immediate)
    from one have "employee_count s = 1" by (simp add: f)
    with a g single have "sampled s"
      by (auto simp: single_ok_def arriving_def granted_def)
    moreover from pending_popped [OF mem, of is_arrival] a have "pending is_arrival f = 0"
      by (simp add: f)
    moreover from pending_popped [OF mem, of is_grant] g have "pending is_grant f = 0"
      by (simp add: f)
    ultimately show ?thesis by (simp add: f sampled_def)
  qed
  have "\<forall>s \<in> set (trace 1 (start_scenario g)). employee_count s = 1 \<longrightarrow>
      put_queue s = [] \<and>
      (if pending is_arrival s = 0 \<and> pending is_grant s = 0
       then wait_times s = [0] \<and> queue_lengths s = [0] \<and> map (snd \<circ> snd) (req_log s) = [0]
       else wait_times s = [] \<and> queue_lengths s = [])"
  proof (rule trace_induct_rule [where P = "\<lambda>s. run_ok 1 s \<and> single_ok s"])
    show "?P (start_scenario g)" by (rule start)
    show "?P s'" if "?P s" "step 1 s = Continue s'" for s s' using that by (rule pres)
    show "employee_count s = 1 \<longrightarrow>
      put_queue s = [] \<and>
      (if pending is_arrival s = 0 \<and> pending is_grant s = 0
       then wait_times s = [0] \<and> queue_lengths s = [0] \<and> map (snd \<circ> snd) (req_log s) = [0]
       else wait_times s = [] \<and> queue_lengths s = [])" if "?P s" for s
      using that by (auto simp: single_ok_def arriving_def granted_def sampled_def)
    show "employee_count f = 1 \<longrightarrow>
      put_queue f = [] \<and>
      (if pending is_arrival f = 0 \<and> pending is_grant f = 0
       then wait_times f = [0] \<and> queue_lengths f = [0] \<and> map (snd \<circ> snd) (req_log f) = [0]
       else wait_times f = [] \<and> queue_lengths f = [])" if "?P s" "step 1 s = Stopped f" for s f
      using final [OF that] by simp
  qed
  moreover have "wait_times f = [0] \<and> queue_lengths f = [0] \<and> map (snd \<circ> snd) (req_log f) = [0]"
    if r: "run 1 (start_scenario g) = Inr f" and one: "employee_count f = 1" for f
  proof -
    have "\<exists>s. ?P s \<and> step 1 s = Stopped f"
      using r start pres by (rule run_final)
    then obtain s where "?P s" "step 1 s = Stopped f" by blast
    from final [OF this one] show ?thesis by simp
  qed
  ultimately show ?thesis by blast
qed

text \<open>
  With the stream \<open>slow\<close> the first entity arrives at 700 s and the second at
  1400 s. After four events the first entity has resumed with its grant and is
  the only one started.
\<close>

theorem single_entity_waits_zero_witness:
  "after 1 4 (start_scenario slow) \<noteq> None \<and>
   the (after 1 4 (start_scenario slow)) \<in> set (trace 1 (start_scenario slow)) \<and>
   employee_count (the (after 1 4 (start_scenario slow))) = 1 \<and>
   pending is_arrival (the (after 1 4 (start_scenario slow))) = 0 \<and>
   pending is_grant (the (after 1 4 (start_scenario slow))) = 0 \<and>
   put_queue (the (after 1 4 (start_scenario slow))) = [] \<and>
   wait_times (the (after 1 4 (start_scenario slow))) = [0] \<and>
   queue_lengths (the (after 1 4 (start_scenario slow))) = [0] \<and>
   map (snd \<circ> snd) (req_log (the (after 1 4 (start_scenario slow)))) = [0]"
proof -
  from slow_4 obtain t where t: "after 1 4 (start_scenario slow) = Some t"
    and c: "employee_count t = 1" and a: "pending is_arrival t = 0"
    and g: "pending is_grant t = 0"
    by (cases "after 1 4 (start_scenario slow)") auto
  from t have mem: "t \<in> set (trace 1 (start_scenario slow))" by (rule after_in_trace)
  from single_entity_waits_zero [of slow] mem c a g
  have "put_queue t = [] \<and> wait_times t = [0] \<and> queue_lengths t = [0] \<and>
      map (snd \<circ> snd) (req_log t) = [0]"
    by auto
  with mem c a g show ?thesis unfolding t by simp
qed

subsection \<open>C8: scenarios are isolated\<close>

text \<open>
  C8: an iteration of the scenario loop reads nothing of the iterations before it
  but the state of the random generator. Given the same random stream, the entry
  an iteration for capacity \<open>a\<close> appends to each list of the results, and the
  generator state it leaves, are the same whether it runs first or after an
  iteration for another capacity \<open>b\<close>; this holds for \<open>a = 3\<close> and \<open>b = 5\<close>.
\<close>

theorem scenario_isolation:
  assumes "iteration a (r, g) = Inr (ra, ga)"
    and "iteration b (r0, g0) = Inr (rb, gb)"
    and "iteration a (rb, g) = Inr (rab, gab)"
  shows "last (res_num_machines rab) = last (res_num_machines ra) \<and>
    last (res_wait_times rab) = last (res_wait_times ra) \<and>
    last (res_queue_lengths rab) = last (res_queue_lengths ra) \<and>
    last (res_utilization rab) = last (res_utilization ra) \<and>
    last (res_throughput rab) = last (res_throughput ra) \<and>
    gab = ga"
  using assms(1,3)
  by (auto simp: iteration_def store_results_def split: sum.splits)

text \<open>
  With the stream \<open>lone\<close>, the iteration for capacity 3 reports utilization
  \<open>1 / 129600\<close> when it runs first and when it runs after the iteration for
  capacity 5.
\<close>

theorem scenario_isolation_witness:
  "\<not> isl (iteration 3 (no_results, lone)) \<and>
   \<not> isl (iteration 5 (no_results, lone)) \<and>
   \<not> isl (iteration 3 (fst (projr (iteration 5 (no_results, lone))), lone)) \<and>
   last (res_utilization (fst (projr (iteration 3 (no_results, lone))))) = 1 / 129600 \<and>
   last (res_utilization
     (fst (projr (iteration 3 (fst (projr (iteration 5 (no_results, lone))), lone))))) =
     1 / 129600"
proof -
  from lone_3 obtain ra ga where a: "iteration 3 (no_results, lone) = Inr (ra, ga)"
    and ua: "res_utilization ra = [1 / 129600]"
    by (cases "iteration 3 (no_results, lone)") auto
  from lone_5_3 obtain rab gab where
    ab: "iteration 3 (fst (projr (iteration 5 (no_results, lone))), lone) = Inr (rab, gab)"
    by (cases "iteration 3 (fst (projr (iteration 5 (no_results, lone))), lone)") auto
  from lone_5 obtain rb gb where b: "iteration 5 (no_results, lone) = Inr (rb, gb)"
    by (cases "iteration 5 (no_results, lone)") auto
  from ab have ab': "iteration 3 (rb, lone) = Inr (rab, gab)" unfolding b by simp
  from scenario_isolation [OF a b ab'] ua show ?thesis unfolding b sum.sel fst_conv ab' a by simp
qed

subsection \<open>C9: samples and completions\<close>

text \<open>
  C9: in every state a scenario run goes through, the two sample lists have the
  same length and the completion counter is at most that length; the entities in
  service, whose service timeout is pending, have left their samples but are not
  counted as completed. The utilization is computed from the number of samples,
  so its count includes the entities that started a service they did not
  complete.
\<close>

theorem samples_cover_services:
  "\<forall>s \<in> set (trace cap (start_scenario g)).
     length (wait_times s) = length (queue_lengths s) \<and>
     served_count s \<le> length (wait_times s) \<and>
     served_count s + pending is_service s \<le> length (wait_times s) \<and>
     utilization (metrics cap s) =
       of_nat (length (wait_times s)) / (SIMULATION_DURATION * of_nat cap) * SERVICE_RATE"
proof -
  let ?Q = "\<lambda>s. length (wait_times s) = length (queue_lengths s) \<and>
     served_count s \<le> length (wait_times s) \<and>
     served_count s + pending is_service s \<le> length (wait_times s) \<and>
     utilization (metrics cap s) =
       of_nat (length (wait_times s)) / (SIMULATION_DURATION * of_nat cap) * SERVICE_RATE"
  have during: "?Q s" if "run_ok cap s" for s
    using that by (simp add: run_ok_def samples_ok_def metrics_def)
  have final: "?Q f" if ok: "run_ok cap s" and stop: "step cap s = Stopped f" for s f
  proof -
    from ok have clk: "clock_ok s" by (simp add: run_ok_def)
    from clk stop obtain x where x: "x \<in> set (queue s)" and f: "f = popped x s"
      by (rule stopped_state) blast
    from pending_popped [OF x, of is_service] have "pending is_service f \<le> pending is_service s"
      by (simp add: f)
    with during [OF ok] show ?thesis by (simp add: f metrics_def)
  qed
  show ?thesis
    using during final by (rule trace_run_ok)
qed

text \<open>
  In the run of \<open>busy\<close> on one machine, after four events employee 1 is in
  service: one sample in each list, no completion.
\<close>

theorem samples_cover_services_witness:
  "after 1 4 (start_scenario busy) \<noteq> None \<and>
   length (wait_times (the (after 1 4 (start_scenario busy)))) = 1 \<and>
   length (queue_lengths (the (after 1 4 (start_scenario busy)))) = 1 \<and>
   served_count (the (after 1 4 (start_scenario busy))) = 0 \<and>
   pending is_service (the (after 1 4 (start_scenario busy))) = 1 \<and>
   served_count (the (after 1 4 (start_scenario busy))) +
     pending is_service (the (after 1 4 (start_scenario busy)))
     \<le> length (wait_times (the (after 1 4 (start_scenario busy))))"
proof -
  from busy_4 obtain s where s: "after 1 4 (start_scenario busy) = Some s"
    and w: "wait_times s = [0]" and q: "queue_lengths s = [0]" and c: "served_count s = 0"
    and p: "pending is_service s = 1"
    by (cases "after 1 4 (start_scenario busy)") auto
  from s have "s \<in> set (trace 1 (start_scenario busy))" by (rule after_in_trace)
  with samples_cover_services [of 1 busy]
  have "served_count s + pending is_service s \<le> length (wait_times s)" by blast
  with w q c p show ?thesis unfolding s by simp
qed

subsection \<open>C10: the results of the sweep\<close>

lemma iteration_appends:
  assumes "iteration n (r, g) = Inr (r', g')"
  shows "res_num_machines r' = res_num_machines r @ [n] \<and>
    length (res_wait_times r') = length (res_wait_times r) + 1 \<and>
    length (res_queue_lengths r') = length (res_queue_lengths r) + 1 \<and>
    length (res_utilization r') = length (res_utilization r) + 1 \<and>
    length (res_throughput r') = length (res_throughput r) + 1"
  using assms by (auto simp: iteration_def store_results_def split: sum.splits)

lemma for_loop_appends:
  assumes "for_loop ns (r, g) = Inr (r', g')"
  shows "res_num_machines r' = res_num_machines r @ ns \<and>
    length (res_wait_times r') = length (res_wait_times r) + length ns \<and>
    length (res_queue_lengths r') = length (res_queue_lengths r) + length ns \<and>
    length (res_utilization r') = length (res_utilization r) + length ns \<and>
    length (res_throughput r') = length (res_throughput r) + length ns"
  using assms
proof (induction ns arbitrary: r g)
  case Nil
  then show ?case by simp
next
  case (Cons n ns)
  from Cons.prems obtain r1 g1 where it: "iteration n (r, g) = Inr (r1, g1)"
    and rest: "for_loop ns (r1, g1) = Inr (r', g')"
    by (auto split: sum.splits)
  from iteration_appends [OF it] Cons.IH [OF rest] show ?case by simp
qed

text \<open>
  C10: when the sweep completes, the list of machine counts in the results is
  \<open>[1, 3, 5, 7, 10]\<close>, the configuration order, and each of the other four lists
  has one entry per capacity: all five lists have length 5.
\<close>

theorem sweep_fills_results:
  assumes "main g = Inr (r, g')"
  shows "res_num_machines r = [1, 3, 5, 7, 10] \<and>
    length (res_wait_times r) = 5 \<and> length (res_queue_lengths r) = 5 \<and>
    length (res_utilization r) = 5 \<and> length (res_throughput r) = 5"
  using for_loop_appends [OF assms [unfolded main_def]] by (simp add: no_results_def)

text \<open>
  The sweep completes with the stream \<open>lone\<close>.
\<close>

theorem sweep_fills_results_witness:
  "\<not> isl (main lone) \<and>
   res_num_machines (fst (projr (main lone))) = [1, 3, 5, 7, 10] \<and>
   length (res_wait_times (fst (projr (main lone)))) = 5 \<and>
   length (res_queue_lengths (fst (projr (main lone)))) = 5 \<and>
   length (res_utilization (fst (projr (main lone)))) = 5 \<and>
   length (res_throughput (fst (projr (main lone)))) = 5"
proof -
  from lone_main obtain r g where m: "main lone = Inr (r, g)"
    by (cases "main lone") auto
  from sweep_fills_results [OF m] show ?thesis unfolding m by simp
qed

end
